theory Spec2Isabelle
  imports Main
begin

section \<open>Tensors with named legs\<close>

text \<open>
  The class \<open>TensorNetworkCode\<close> of \<open>tensornetworkcode.py\<close> keeps one tensor network and
  hands every request on to it. Tensors and networks are mutable objects shared by
  reference, so the model keeps them in an explicit store: an address is a position in
  the store, a fresh object is appended, and an update in place replaces the value at
  its address.
\<close>

type_synonym label = string

text \<open>A dense array: its shape and its entries in row-major order.\<close>

record 'a ndarray =
  shape :: "nat list"
  entries :: "'a list"

text \<open>
  A tensor as the source builds it, \<open>Tensor(array, inds=('a','b'), tags={'T1'})\<close>:
  one label per dimension of the array.
\<close>

record 'a tensor =
  data :: "'a ndarray"
  inds :: "label list"
  tags :: "string list"

text \<open>
  The store. A network object is its collection of tensors, by address, in insertion
  order; the index map is derived from that collection (see \<open>ind_map\<close>).
\<close>

record 'a heap =
  tensor_objs :: "'a tensor list"
  network_objs :: "nat list list"

text \<open>
  The exceptions. The source raises \<open>ValueError\<close> with a message; the network's own
  contraction of a label that it does not know is a missing-key failure carrying
  the label. In Python \<open>KeyError\<close> is a \<open>LookupError\<close> and \<open>ValueError\<close> is not.
\<close>

datatype error = ValueError string | KeyError label

fun is_LookupError :: "error \<Rightarrow> bool" where
  "is_LookupError (KeyError l) = True"
| "is_LookupError (ValueError m) = False"

text \<open>The objects of \<open>TensorNetworkCode\<close>: the three attributes set by \<open>__init__\<close>
  (\<open>structure\<close> is a keyword of Isabelle, hence \<open>structure_attr\<close>).\<close>

record 's tncode =
  tensors :: "nat list"
  network :: nat
  structure_attr :: "'s option"

section \<open>The network operations the class calls\<close>

text \<open>
  Modelled from the spec: the tensor-network library (\<open>quimb.tensor\<close>) is not part of
  the repository. What follows writes down the spec's sections 4.1, 4.2 and 9 for the
  operations the class calls: \<open>tensors\<close>, \<open>ind_map\<close>, \<open>copy\<close>, \<open>reindex_\<close>,
  \<open>contract_ind\<close> and \<open>add_tensor\<close>.
\<close>

text \<open>Modelled from the spec: the tensor collection of a network (\<open>tn.tensors\<close>).\<close>

definition tn_tensors :: "'a heap \<Rightarrow> nat \<Rightarrow> nat list" where
  "tn_tensors h n = network_objs h ! n"

text \<open>
  Modelled from the spec: the "tensors currently exposing that label", in the order of
  the collection.
\<close>

definition owners :: "'a heap \<Rightarrow> nat \<Rightarrow> label \<Rightarrow> nat list" where
  "owners h n l = filter (\<lambda>r. l \<in> set (inds (tensor_objs h ! r))) (tn_tensors h n)"

text \<open>
  Modelled from the spec: "\<open>ind_map\<close> (derived: mapping from leg label to the set of
  tensors currently exposing that label)". A label that no tensor of the network
  exposes is not a key, so \<open>label in tn.ind_map\<close> is \<open>label \<in> dom (ind_map h tn)\<close>.
\<close>

definition ind_map :: "'a heap \<Rightarrow> nat \<Rightarrow> label \<rightharpoonup> nat set" where
  "ind_map h n l = (if owners h n l = [] then None else Some (set (owners h n l)))"

text \<open>
  Modelled from the spec: \<open>copy()\<close>, a "deep-enough clone such that mutating the copy's
  tensors/ind_map/any tensor's legs never affects the original": every tensor of the
  network is copied to a fresh object and the clone is a fresh network of the copies.
\<close>

definition tn_copy :: "nat \<Rightarrow> 'a heap \<Rightarrow> nat \<times> 'a heap" where
  "tn_copy n h =
     (let k = length (tensor_objs h); ts = tn_tensors h n
      in (length (network_objs h),
          h\<lparr>tensor_objs := tensor_objs h @ map (\<lambda>r. tensor_objs h ! r) ts,
            network_objs := network_objs h @ [[k ..< k + length ts]]\<rparr>))"

text \<open>
  Modelled from the spec: \<open>rename_leg\<close>, which the source calls as \<open>t.reindex_({old: new})\<close>
  (the renaming in place; an Isabelle name cannot end in an underscore). "Every
  occurrence of \<open>old\<close> in this tensor's leg list is replaced by \<open>new\<close> ... No numeric
  data is altered." The argument is the dictionary of renamings.
\<close>

definition reindex_inplace :: "nat \<Rightarrow> (label \<rightharpoonup> label) \<Rightarrow> 'a heap \<Rightarrow> 'a heap" where
  "reindex_inplace r m h =
     h\<lparr>tensor_objs := (tensor_objs h)
         [r := (tensor_objs h ! r)
                 \<lparr>inds := map (\<lambda>i. case m i of Some j \<Rightarrow> j | None \<Rightarrow> i)
                              (inds (tensor_objs h ! r))\<rparr>]\<rparr>"

subsection \<open>The array-contraction primitive\<close>

text \<open>
  Modelled from the spec: the pieces of the array-contraction primitive of section 9.
  First the row-major position of a multi-index.
\<close>

definition offset :: "nat list \<Rightarrow> nat list \<Rightarrow> nat" where
  "offset shp idx = foldl (\<lambda>acc (d, i). acc * d + i) 0 (zip shp idx)"

text \<open>
  Modelled from the spec: the entry of an array at a multi-index. The contraction reads
  inside the array as long as a label has one dimension on all the tensors that carry it
  and every array has as many entries as its shape says.
\<close>

definition at :: "'a ndarray \<Rightarrow> nat list \<Rightarrow> 'a" where
  "at A idx = entries A ! offset (shape A) idx"

text \<open>Modelled from the spec: all multi-indices of a shape, in row-major order.\<close>

definition multi_indices :: "nat list \<Rightarrow> nat list list" where
  "multi_indices shp = product_lists (map (\<lambda>d. [0..<d]) shp)"

text \<open>
  Modelled from the spec: the multi-index of one input under an assignment of indices to
  labels. Every axis reads the index of its label.
\<close>

definition axis_index :: "(label \<rightharpoonup> nat) \<Rightarrow> label list \<Rightarrow> nat list" where
  "axis_index env ls = map (\<lambda>l. case env l of Some i \<Rightarrow> i | None \<Rightarrow> 0) ls"

text \<open>
  Modelled from the spec: the product of the inputs' entries for one assignment of indices
  to the labels.
\<close>

definition term_prod :: "(label \<rightharpoonup> nat) \<Rightarrow> 'a::comm_semiring_1 tensor list \<Rightarrow> 'a" where
  "term_prod env ts = prod_list (map (\<lambda>t. at (data t) (axis_index env (inds t))) ts)"

text \<open>Modelled from the spec: the dimension of a label, read at its first axis.\<close>

definition axes_of :: "'a tensor list \<Rightarrow> (label \<times> nat) list" where
  "axes_of ts = concat (map (\<lambda>t. zip (inds t) (shape (data t))) ts)"

definition dim_of :: "(label \<times> nat) list \<Rightarrow> label \<Rightarrow> nat" where
  "dim_of axes l = (case map_of axes l of Some d \<Rightarrow> d | None \<Rightarrow> 0)"

text \<open>
  Modelled from the spec: the array-contraction collaborator with the labels of its result
  given. Every label of the inputs that is not a label of the result is summed; each
  entry of the result is the sum, over the indices of the summed labels, of the product of
  the inputs' entries. The spec names no failure of it. It leaves the tags of the result
  open: they are the inputs' tags. The entries are sums of products in a commutative
  semiring.
\<close>

definition tensor_contract :: "label list \<Rightarrow> 'a::comm_semiring_1 tensor list \<Rightarrow> 'a tensor" where
  "tensor_contract out ts =
     (let axes = axes_of ts;
          summed = remdups (filter (\<lambda>l. l \<notin> set out) (concat (map inds ts)))
      in \<lparr>data = \<lparr>shape = map (dim_of axes) out,
                  entries =
                    map (\<lambda>oidx. sum_list
                           (map (\<lambda>sidx. term_prod (map_of (zip out oidx @ zip summed sidx)) ts)
                                (multi_indices (map (dim_of axes) summed))))
                        (multi_indices (map (dim_of axes) out))\<rparr>,
          inds = out,
          tags = remdups (concat (map tags ts))\<rparr>)"

text \<open>
  Modelled from the spec: which labels a merge sums. The primitive returns "the array and
  label list obtained by summing over every label occurring on two or more inputs, leaving
  other labels in place"; within a network, "all other labels' tensor sets are updated to
  point at the new merged tensor wherever they pointed at any of the consumed tensors",
  so a label that a tensor outside the merge still carries (\<open>keep\<close>) is not summed: it
  stays, once, on the merged tensor.
\<close>

definition summed_inds :: "label list \<Rightarrow> 'a tensor list \<Rightarrow> label list" where
  "summed_inds keep ts =
     remdups (filter (\<lambda>l. l \<notin> set keep \<and> 2 \<le> length (filter (\<lambda>t. l \<in> set (inds t)) ts))
                     (concat (map inds ts)))"

text \<open>Modelled from the spec: the labels of the merged tensor, each one once.\<close>

definition output_inds :: "label list \<Rightarrow> 'a tensor list \<Rightarrow> label list" where
  "output_inds keep ts =
     remdups (filter (\<lambda>l. l \<notin> set (summed_inds keep ts)) (concat (map inds ts)))"

text \<open>
  Modelled from the spec: \<open>contract_ind(label)\<close>. "All tensors currently exposing
  \<open>label\<close> are merged into one new tensor ... the new tensor replaces its inputs in
  \<open>tensors\<close>"; on a label that is not in \<open>ind_map\<close> it "fails with a LookupError-kind
  failure identifying the missing label". The merge has the "standard array contraction
  semantics ... inherited from the underlying array-contraction primitive": the labels
  that two or more of the merged tensors carry are summed together, the contracted label
  among them, unless a tensor that is not merged carries them too. So a second label that
  only the merged tensors share goes with the first, which section 4.3 describes as a
  label that vanishes "as a side effect", and a label that a third tensor carries stays
  on the merged tensor.
\<close>

definition contract_ind :: "nat \<Rightarrow> label \<Rightarrow> 'a::comm_semiring_1 heap \<Rightarrow> (error + unit) \<times> 'a heap" where
  "contract_ind n l h =
     (case ind_map h n l of
        None \<Rightarrow> (Inl (KeyError l), h)
      | Some ow \<Rightarrow>
          (let merged = map (\<lambda>r. tensor_objs h ! r) (owners h n l);
               rest = filter (\<lambda>r. r \<notin> ow) (tn_tensors h n);
               keep = concat (map (\<lambda>r. inds (tensor_objs h ! r)) rest);
               tnew = tensor_contract (output_inds keep merged) merged
           in (Inr (),
               h\<lparr>tensor_objs := tensor_objs h @ [tnew],
                 network_objs := (network_objs h)[n := rest @ [length (tensor_objs h)]]\<rparr>)))"

text \<open>
  Modelled from the spec: the full contraction of a network, which "repeatedly contracts
  every label until no label remains shared by more than one tensor (or there is one
  tensor left); returns the raw numeric result merged across all tensors", "equivalent to
  evaluating the entire network as one expression. Order of evaluation is unspecified
  (delegated to whatever contraction-path optimizer is used)". The order is the argument
  \<open>path\<close>: the labels that the optimiser contracts, one after the other, a label that is not
  in \<open>ind_map\<close> at its turn being passed over. This is done on a copy. The tensors that are
  left are merged by the primitive into one tensor whose legs are the open legs of the
  network, those that only one tensor carries, in the order of the network. Only the
  result is modelled, not what becomes of the store.
\<close>

definition tn_contract :: "label list \<Rightarrow> nat \<Rightarrow> 'a::comm_semiring_1 heap \<Rightarrow> 'a tensor" where
  "tn_contract path n h =
     (case tn_copy n h of
        (tn, h1) \<Rightarrow>
          (let h2 = foldl (\<lambda>hh l. snd (contract_ind tn l hh)) h1 path
           in tensor_contract
                (output_inds [] (map (\<lambda>r. tensor_objs h ! r) (tn_tensors h n)))
                (map (\<lambda>r. tensor_objs h2 ! r) (tn_tensors h2 tn))))"

text \<open>
  Modelled from the spec: \<open>add_tensor(t)\<close> of a network, "appends \<open>t\<close> to \<open>tensors\<close>;
  updates \<open>ind_map\<close> so every label in \<open>t.legs\<close> maps to (previous owners \<union> {t})". The
  network holds the tensor as an object of its own.
\<close>

definition tn_add_tensor :: "nat \<Rightarrow> 'a tensor \<Rightarrow> 'a heap \<Rightarrow> 'a heap" where
  "tn_add_tensor n t h =
     h\<lparr>tensor_objs := tensor_objs h @ [t],
       network_objs := (network_objs h)[n := tn_tensors h n @ [length (tensor_objs h)]]\<rparr>"

section \<open>The methods of \<open>TensorNetworkCode\<close>\<close>

text \<open>The two messages of the source's f-strings.\<close>

definition not_found :: "label \<Rightarrow> string" where
  "not_found ind = ''Index '' @ [CHR 0x27] @ ind @ [CHR 0x27] @ '' not found in the tensor network.''"

definition not_found_after_fusing :: "label \<Rightarrow> string" where
  "not_found_after_fusing ind =
     ''Index '' @ [CHR 0x27] @ ind @ [CHR 0x27] @ '' not found in the tensor network after fusing.''"

text \<open>
  The loop \<open>for t in tn.tensors: t.reindex_({old: new})\<close>: the collection is read once,
  then every tensor of it is renamed in place.
\<close>

definition rename_all :: "nat \<Rightarrow> label \<Rightarrow> label \<Rightarrow> 'a heap \<Rightarrow> 'a heap" where
  "rename_all n old new h =
     foldl (\<lambda>hh t. reindex_inplace t [old \<mapsto> new] hh) h (tn_tensors h n)"

text \<open>
  \<open>fuse_and_contract_indices\<close>: copy, rename \<open>ind2\<close> to \<open>ind1\<close> on every tensor of the
  copy, check \<open>ind1\<close>, contract it, return the copy. A method returns the raised
  exception or its result, and the store as it has left it.
\<close>

definition fuse_and_contract_indices ::
  "'s tncode \<Rightarrow> label \<Rightarrow> label \<Rightarrow> 'a::comm_semiring_1 heap \<Rightarrow> (error + nat) \<times> 'a heap" where
  "fuse_and_contract_indices self ind1 ind2 h =
     (case tn_copy (network self) h of
        (tn, h1) \<Rightarrow>
          (let h2 = rename_all tn ind2 ind1 h1
           in if ind1 \<notin> dom (ind_map h2 tn)
              then (Inl (ValueError (not_found_after_fusing ind1)), h2)
              else (case contract_ind tn ind1 h2 of
                      (Inl e, h3) \<Rightarrow> (Inl e, h3)
                    | (Inr u, h3) \<Rightarrow> (Inr tn, h3))))"

text \<open>\<open>contract_two_indices\<close>: copy, check both labels, contract the first, then the second.\<close>

definition contract_two_indices ::
  "'s tncode \<Rightarrow> label \<Rightarrow> label \<Rightarrow> 'a::comm_semiring_1 heap \<Rightarrow> (error + nat) \<times> 'a heap" where
  "contract_two_indices self ind1 ind2 h =
     (case tn_copy (network self) h of
        (tn, h1) \<Rightarrow>
          if ind1 \<notin> dom (ind_map h1 tn) then (Inl (ValueError (not_found ind1)), h1)
          else if ind2 \<notin> dom (ind_map h1 tn) then (Inl (ValueError (not_found ind2)), h1)
          else (case contract_ind tn ind1 h1 of
                  (Inl e, h2) \<Rightarrow> (Inl e, h2)
                | (Inr u, h2) \<Rightarrow>
                    (case contract_ind tn ind2 h2 of
                       (Inl e, h3) \<Rightarrow> (Inl e, h3)
                     | (Inr u, h3) \<Rightarrow> (Inr tn, h3))))"

text \<open>The loop of \<open>contract_indices\<close> over the labels, on the copy \<open>tn\<close>.\<close>

fun contract_loop :: "nat \<Rightarrow> label list \<Rightarrow> 'a::comm_semiring_1 heap \<Rightarrow> (error + unit) \<times> 'a heap" where
  "contract_loop tn [] h = (Inr (), h)"
| "contract_loop tn (ind # rest) h =
     (if ind \<notin> dom (ind_map h tn) then (Inl (ValueError (not_found ind)), h)
      else (case contract_ind tn ind h of
              (Inl e, h') \<Rightarrow> (Inl e, h')
            | (Inr u, h') \<Rightarrow> contract_loop tn rest h'))"

definition contract_indices ::
  "'s tncode \<Rightarrow> label list \<Rightarrow> 'a::comm_semiring_1 heap \<Rightarrow> (error + nat) \<times> 'a heap" where
  "contract_indices self indices h =
     (case tn_copy (network self) h of
        (tn, h1) \<Rightarrow>
          (case contract_loop tn indices h1 of
             (Inl e, h2) \<Rightarrow> (Inl e, h2)
           | (Inr u, h2) \<Rightarrow> (Inr tn, h2)))"

text \<open>
  \<open>contract\<close>: the full contraction of the owned network. The keyword arguments go to the
  library as they are; what they decide is the order of contraction, here \<open>path\<close>.
\<close>

definition contract :: "'s tncode \<Rightarrow> label list \<Rightarrow> 'a::comm_semiring_1 heap \<Rightarrow> 'a tensor" where
  "contract self path h = tn_contract path (network self) h"

text \<open>\<open>add_tensor\<close> and \<open>get_tensors\<close> work on the owned network itself.\<close>

definition add_tensor :: "'s tncode \<Rightarrow> 'a tensor \<Rightarrow> 'a heap \<Rightarrow> (error + unit) \<times> 'a heap" where
  "add_tensor self t h = (Inr (), tn_add_tensor (network self) t h)"

definition get_tensors :: "'s tncode \<Rightarrow> 'a heap \<Rightarrow> nat list" where
  "get_tensors self h = tn_tensors h (network self)"

text \<open>What a caller sees of a network: the values of its tensors, in order.\<close>

definition tensor_values :: "'a heap \<Rightarrow> nat \<Rightarrow> 'a tensor list" where
  "tensor_values h n = map (\<lambda>r. tensor_objs h ! r) (tn_tensors h n)"

text \<open>
  A network lives in a store when it is an object of the store and every tensor of it
  is one too; a code object does when its network does.
\<close>

definition valid_net :: "nat \<Rightarrow> 'a heap \<Rightarrow> bool" where
  "valid_net n h \<longleftrightarrow>
     n < length (network_objs h) \<and> (\<forall>r \<in> set (tn_tensors h n). r < length (tensor_objs h))"

definition valid_code :: "'s tncode \<Rightarrow> 'a heap \<Rightarrow> bool" where
  "valid_code self h \<longleftrightarrow> valid_net (network self) h"

section \<open>Notions used to state the properties\<close>

text \<open>The contractions of a sequence of labels on one network, one after the other.\<close>

definition contract_all :: "nat \<Rightarrow> label list \<Rightarrow> 'a::comm_semiring_1 heap \<Rightarrow> 'a heap" where
  "contract_all tn ls h = foldl (\<lambda>hh l. snd (contract_ind tn l hh)) h ls"

text \<open>
  What contracting a label does to the tensor values of a network: the tensors that
  expose the label leave, their contraction joins.
\<close>

definition contract_values :: "label \<Rightarrow> 'a::comm_semiring_1 tensor list \<Rightarrow> 'a tensor list" where
  "contract_values l vs =
     (let rest = filter (\<lambda>t. l \<notin> set (inds t)) vs;
          merged = filter (\<lambda>t. l \<in> set (inds t)) vs
      in rest @ [tensor_contract (output_inds (concat (map inds rest)) merged) merged])"

text \<open>One tensor value with a leg renamed.\<close>

definition rename_leg :: "label \<Rightarrow> label \<Rightarrow> 'a tensor \<Rightarrow> 'a tensor" where
  "rename_leg old new t = t\<lparr>inds := map (\<lambda>i. if i = old then new else i) (inds t)\<rparr>"

text \<open>
  Every object of the store \<open>h\<close> is still there in \<open>h'\<close>, with the value it had; and the
  network \<open>tn\<close> of \<open>h'\<close> is younger than \<open>h\<close>, as are all its tensors.
\<close>

definition extends :: "'a heap \<Rightarrow> 'a heap \<Rightarrow> bool" where
  "extends h h' \<longleftrightarrow>
     take (length (tensor_objs h)) (tensor_objs h') = tensor_objs h \<and>
     take (length (network_objs h)) (network_objs h') = network_objs h"

definition private_net :: "'a heap \<Rightarrow> nat \<Rightarrow> 'a heap \<Rightarrow> bool" where
  "private_net h tn h' \<longleftrightarrow>
     length (network_objs h) \<le> tn \<and> tn < length (network_objs h') \<and>
     (\<forall>r \<in> set (tn_tensors h' tn). length (tensor_objs h) \<le> r)"

text \<open>
  A tensor is well formed for an assignment \<open>D\<close> of dimensions to labels when its legs are
  distinct, its shape gives every leg the dimension of its label, and it has as many
  entries as its shape says (the spec's invariant of a tensor).
\<close>

definition wf_tensor :: "(label \<Rightarrow> nat) \<Rightarrow> 'a tensor \<Rightarrow> bool" where
  "wf_tensor D t \<longleftrightarrow>
     distinct (inds t) \<and> shape (data t) = map D (inds t) \<and>
     length (entries (data t)) = prod_list (shape (data t))"

text \<open>
  The assignments of indices to a set of labels, each index below the dimension of its
  label: what a contraction sums over.
\<close>

definition envs :: "(label \<Rightarrow> nat) \<Rightarrow> label set \<Rightarrow> (label \<rightharpoonup> nat) set" where
  "envs D A = {e. dom e = A \<and> (\<forall>l \<in> A. the (e l) < D l)}"

section \<open>Example stores\<close>

text \<open>
  A code object whose network is the object 0 of the store, and three stores for it: the
  spec's scenario A (legs \<open>a b\<close> and \<open>b c\<close>), two tensors with the same two legs, and the
  source's own example (legs \<open>a b\<close> and \<open>d c\<close>).
\<close>

definition example_code :: "unit tncode" where
  "example_code = \<lparr>tensors = [0, 1], network = 0, structure_attr = None\<rparr>"

definition scenario_A :: "int heap" where
  "scenario_A =
     \<lparr>tensor_objs =
        [\<lparr>data = \<lparr>shape = [2, 2], entries = [1, 2, 3, 4]\<rparr>, inds = [''a'', ''b''], tags = [''T1'']\<rparr>,
         \<lparr>data = \<lparr>shape = [2, 2], entries = [5, 6, 7, 8]\<rparr>, inds = [''b'', ''c''], tags = [''T2'']\<rparr>],
      network_objs = [[0, 1]]\<rparr>"

definition twin_net :: "int heap" where
  "twin_net =
     \<lparr>tensor_objs =
        [\<lparr>data = \<lparr>shape = [2, 2], entries = [1, 2, 3, 4]\<rparr>, inds = [''a'', ''b''], tags = [''T1'']\<rparr>,
         \<lparr>data = \<lparr>shape = [2, 2], entries = [5, 6, 7, 8]\<rparr>, inds = [''a'', ''b''], tags = [''T2'']\<rparr>],
      network_objs = [[0, 1]]\<rparr>"

definition scenario_C :: "int heap" where
  "scenario_C =
     \<lparr>tensor_objs =
        [\<lparr>data = \<lparr>shape = [2, 2], entries = [1, 2, 3, 4]\<rparr>, inds = [''a'', ''b''], tags = [''T1'']\<rparr>,
         \<lparr>data = \<lparr>shape = [2, 2], entries = [5, 6, 7, 8]\<rparr>, inds = [''d'', ''c''], tags = [''T2'']\<rparr>],
      network_objs = [[0, 1]]\<rparr>"

definition lone_code :: "unit tncode" where
  "lone_code = \<lparr>tensors = [0], network = 0, structure_attr = None\<rparr>"

definition lone_net :: "int heap" where
  "lone_net =
     \<lparr>tensor_objs =
        [\<lparr>data = \<lparr>shape = [2, 2], entries = [1, 2, 3, 4]\<rparr>, inds = [''a'', ''b''], tags = [''T1'']\<rparr>],
      network_objs = [[0]]\<rparr>"

text \<open>
  Two networks of three tensors: a chain (legs \<open>a b\<close>, \<open>b c\<close>, \<open>c d\<close>) and one in which three
  tensors carry the label \<open>x\<close> (legs \<open>a x\<close>, \<open>a x\<close>, \<open>x d\<close>).
\<close>

definition three_code :: "unit tncode" where
  "three_code = \<lparr>tensors = [0, 1, 2], network = 0, structure_attr = None\<rparr>"

definition chain_net :: "int heap" where
  "chain_net =
     \<lparr>tensor_objs =
        [\<lparr>data = \<lparr>shape = [2, 2], entries = [1, 2, 3, 4]\<rparr>, inds = [''a'', ''b''], tags = [''T1'']\<rparr>,
         \<lparr>data = \<lparr>shape = [2, 2], entries = [5, 6, 7, 8]\<rparr>, inds = [''b'', ''c''], tags = [''T2'']\<rparr>,
         \<lparr>data = \<lparr>shape = [2, 2], entries = [1, 1, 0, 2]\<rparr>, inds = [''c'', ''d''], tags = [''T3'']\<rparr>],
      network_objs = [[0, 1, 2]]\<rparr>"

definition shared_net :: "int heap" where
  "shared_net =
     \<lparr>tensor_objs =
        [\<lparr>data = \<lparr>shape = [2, 2], entries = [1, 2, 3, 4]\<rparr>, inds = [''a'', ''x''], tags = [''T1'']\<rparr>,
         \<lparr>data = \<lparr>shape = [2, 2], entries = [5, 6, 7, 8]\<rparr>, inds = [''a'', ''x''], tags = [''T2'']\<rparr>,
         \<lparr>data = \<lparr>shape = [2, 2], entries = [1, 1, 0, 2]\<rparr>, inds = [''x'', ''d''], tags = [''T3'']\<rparr>],
      network_objs = [[0, 1, 2]]\<rparr>"

section \<open>Lemmas about the network operations\<close>

subsection \<open>The index map and the copy\<close>

lemma in_ind_map:
  "l \<in> dom (ind_map h n) \<longleftrightarrow> (\<exists>t \<in> set (tensor_values h n). l \<in> set (inds t))"
  by (auto simp: ind_map_def owners_def tensor_values_def dom_def filter_empty_conv)

lemma nth_fresh_block:
  "map (\<lambda>r. (xs @ ys) ! r) [length xs ..< length xs + length ys] = ys"
  by (rule nth_equalityI) (simp_all add: nth_append)

lemma tn_copy_fst: "fst (tn_copy n h) = length (network_objs h)"
  by (simp add: tn_copy_def Let_def)

lemma tn_copy_tensors:
  "tn_tensors (snd (tn_copy n h)) (fst (tn_copy n h)) =
     [length (tensor_objs h) ..< length (tensor_objs h) + length (tn_tensors h n)]"
  by (simp add: tn_copy_def Let_def tn_tensors_def)

lemma tn_copy_values:
  "tensor_values (snd (tn_copy n h)) (fst (tn_copy n h)) = tensor_values h n"
proof -
  let ?ys = "map (\<lambda>r. tensor_objs h ! r) (tn_tensors h n)"
  have "tensor_values (snd (tn_copy n h)) (fst (tn_copy n h)) =
          map (\<lambda>r. (tensor_objs h @ ?ys) ! r)
              [length (tensor_objs h) ..< length (tensor_objs h) + length ?ys]"
    by (simp add: tensor_values_def tn_copy_def Let_def tn_tensors_def)
  also have "\<dots> = ?ys" by (rule nth_fresh_block)
  finally show ?thesis by (simp add: tensor_values_def)
qed

lemma tn_copy_ind_map_dom:
  "dom (ind_map (snd (tn_copy n h)) (fst (tn_copy n h))) = dom (ind_map h n)"
  by (rule set_eqI) (simp only: in_ind_map tn_copy_values)

subsection \<open>Contraction seen through the tensor values\<close>

lemma contract_ind_missing:
  "l \<notin> dom (ind_map h n) \<Longrightarrow> contract_ind n l h = (Inl (KeyError l), h)"
  by (simp add: contract_ind_def domIff)

lemma contract_ind_fst:
  "l \<in> dom (ind_map h n) \<Longrightarrow> fst (contract_ind n l h) = Inr ()"
  by (auto simp: contract_ind_def Let_def domIff split: option.splits)

lemma contract_ind_present:
  assumes "l \<in> dom (ind_map h n)"
  shows "contract_ind n l h =
     (Inr (), h\<lparr>tensor_objs := tensor_objs h @
                   [tensor_contract
                      (output_inds
                         (concat (map (\<lambda>r. inds (tensor_objs h ! r))
                            (filter (\<lambda>r. l \<notin> set (inds (tensor_objs h ! r))) (tn_tensors h n))))
                         (map (\<lambda>r. tensor_objs h ! r) (owners h n l)))
                      (map (\<lambda>r. tensor_objs h ! r) (owners h n l))],
                network_objs := (network_objs h)
                   [n := filter (\<lambda>r. l \<notin> set (inds (tensor_objs h ! r))) (tn_tensors h n)
                         @ [length (tensor_objs h)]]\<rparr>)"
proof -
  from assms obtain ow where ow: "ind_map h n l = Some ow" by (auto simp: domIff)
  then have ow_eq: "ow = set (owners h n l)"
    by (auto simp: ind_map_def split: if_splits)
  have "filter (\<lambda>r. r \<notin> ow) (tn_tensors h n) =
        filter (\<lambda>r. l \<notin> set (inds (tensor_objs h ! r))) (tn_tensors h n)"
    unfolding ow_eq by (rule filter_cong) (auto simp: owners_def)
  with ow show ?thesis by (simp add: contract_ind_def Let_def)
qed

lemma contract_ind_values:
  assumes "l \<in> dom (ind_map h n)" and "valid_net n h"
  shows "tensor_values (snd (contract_ind n l h)) n = contract_values l (tensor_values h n)"
proof -
  have lt: "\<forall>r \<in> set (tn_tensors h n). r < length (tensor_objs h)" and n: "n < length (network_objs h)"
    using assms(2) by (auto simp: valid_net_def)
  show ?thesis
    using lt n
    by (simp add: contract_ind_present[OF assms(1)] tensor_values_def tn_tensors_def
        contract_values_def owners_def filter_map comp_def nth_append Let_def)
qed

lemma contract_ind_valid:
  assumes "valid_net n h"
  shows "valid_net n (snd (contract_ind n l h))"
proof (cases "l \<in> dom (ind_map h n)")
  case True
  show ?thesis using assms
    by (auto simp: contract_ind_present[OF True] valid_net_def tn_tensors_def less_Suc_eq)
next
  case False
  then show ?thesis using assms by (simp add: contract_ind_missing)
qed

lemma tn_copy_valid: "valid_net (fst (tn_copy n h)) (snd (tn_copy n h))"
  by (simp add: valid_net_def tn_copy_tensors) (simp add: tn_copy_def Let_def)

lemma contract_all_Cons:
  "contract_all tn (l # ls) h = contract_all tn ls (snd (contract_ind tn l h))"
  by (simp add: contract_all_def)

lemma contract_loop_step:
  assumes "ind \<in> dom (ind_map h tn)"
  shows "contract_loop tn (ind # rest) h = contract_loop tn rest (snd (contract_ind tn ind h))"
proof (cases "contract_ind tn ind h")
  case (Pair res h')
  with contract_ind_fst[OF assms] have "res = Inr ()" by simp
  with Pair assms show ?thesis by simp
qed

lemma contract_loop_ok:
  "(\<forall>j < length ls. ls ! j \<in> dom (ind_map (contract_all tn (take j ls) h) tn)) \<Longrightarrow>
   contract_loop tn ls h = (Inr (), contract_all tn ls h)"
proof (induction ls arbitrary: h)
  case Nil
  show ?case by (simp add: contract_all_def)
next
  case (Cons ind rest)
  from Cons.prems have here: "ind \<in> dom (ind_map h tn)"
    by (auto simp: contract_all_def dest: spec[of _ 0])
  have later: "\<forall>j < length rest.
      rest ! j \<in> dom (ind_map (contract_all tn (take j rest) (snd (contract_ind tn ind h))) tn)"
  proof (intro allI impI)
    fix j assume "j < length rest"
    with Cons.prems have
      "(ind # rest) ! Suc j \<in> dom (ind_map (contract_all tn (take (Suc j) (ind # rest)) h) tn)"
      by (metis Suc_less_eq length_Cons)
    then show "rest ! j \<in> dom (ind_map (contract_all tn (take j rest) (snd (contract_ind tn ind h))) tn)"
      by (simp add: contract_all_Cons)
  qed
  show ?case
    using Cons.IH[OF later]
    by (simp only: contract_loop_step[OF here] contract_all_Cons)
qed

lemma contract_loop_fails:
  "k < length ls \<Longrightarrow>
   (\<forall>j < k. ls ! j \<in> dom (ind_map (contract_all tn (take j ls) h) tn)) \<Longrightarrow>
   ls ! k \<notin> dom (ind_map (contract_all tn (take k ls) h) tn) \<Longrightarrow>
   contract_loop tn ls h = (Inl (ValueError (not_found (ls ! k))), contract_all tn (take k ls) h)"
proof (induction ls arbitrary: h k)
  case Nil
  then show ?case by simp
next
  case (Cons ind rest)
  show ?case
  proof (cases k)
    case 0
    with Cons.prems(3) show ?thesis by (simp add: contract_all_def)
  next
    case (Suc k')
    from Cons.prems(2) Suc have here: "ind \<in> dom (ind_map h tn)"
      by (auto simp: contract_all_def dest: spec[of _ 0])
    have k': "k' < length rest" using Cons.prems(1) Suc by simp
    have earlier: "\<forall>j < k'.
        rest ! j \<in> dom (ind_map (contract_all tn (take j rest) (snd (contract_ind tn ind h))) tn)"
    proof (intro allI impI)
      fix j assume "j < k'"
      then have "Suc j < k" using Suc by simp
      with Cons.prems(2) have
        "(ind # rest) ! Suc j \<in> dom (ind_map (contract_all tn (take (Suc j) (ind # rest)) h) tn)"
        by blast
      then show "rest ! j \<in> dom (ind_map (contract_all tn (take j rest) (snd (contract_ind tn ind h))) tn)"
        by (simp add: contract_all_Cons)
    qed
    have absent: "rest ! k' \<notin> dom (ind_map (contract_all tn (take k' rest) (snd (contract_ind tn ind h))) tn)"
      using Cons.prems(3) Suc by (simp add: contract_all_Cons)
    show ?thesis
      using Cons.IH[OF k' earlier absent] Suc
      by (simp add: contract_loop_step[OF here] contract_all_Cons del: contract_loop.simps)
  qed
qed

lemma contract_two_indices_present:
  assumes "tn_copy (network self) h = (tn, h1)"
    and "ind1 \<in> dom (ind_map h1 tn)" and "ind2 \<in> dom (ind_map h1 tn)"
  shows "contract_two_indices self ind1 ind2 h =
           (case contract_ind tn ind2 (snd (contract_ind tn ind1 h1)) of
              (Inl e, h3) \<Rightarrow> (Inl e, h3)
            | (Inr u, h3) \<Rightarrow> (Inr tn, h3))"
proof (cases "contract_ind tn ind1 h1")
  case (Pair res h2)
  with contract_ind_fst[OF assms(2)] have "res = Inr ()" by simp
  with Pair assms show ?thesis by (simp add: contract_two_indices_def)
qed

lemma shared_label_summed:
  assumes "2 \<le> length ts" and "\<forall>t \<in> set ts. x \<in> set (inds t)" and "x \<notin> set keep"
  shows "x \<in> set (summed_inds keep ts)"
proof -
  from assms(2) have all: "filter (\<lambda>t. x \<in> set (inds t)) ts = ts" by simp
  from assms(1) obtain t where "t \<in> set ts" by (cases ts) auto
  with assms(2) have "x \<in> set (concat (map inds ts))" by auto
  with all assms(1,3) show ?thesis by (simp add: summed_inds_def)
qed

lemma summed_label_gone:
  "x \<in> set (summed_inds keep ts) \<Longrightarrow>
   x \<notin> set (inds (tensor_contract (output_inds keep ts) ts))"
  by (simp add: tensor_contract_def Let_def output_inds_def)

lemma contract_values_removes:
  assumes "2 \<le> length (filter (\<lambda>t. x \<in> set (inds t)) vs)"
  shows "\<forall>t \<in> set (contract_values x vs). x \<notin> set (inds t)"
proof -
  let ?rest = "filter (\<lambda>t. x \<notin> set (inds t)) vs"
  let ?merged = "filter (\<lambda>t. x \<in> set (inds t)) vs"
  have "x \<notin> set (concat (map inds ?rest))" by auto
  then have "x \<in> set (summed_inds (concat (map inds ?rest)) ?merged)"
    by (intro shared_label_summed[OF assms]) simp_all
  then have "x \<notin> set (inds (tensor_contract (output_inds (concat (map inds ?rest)) ?merged) ?merged))"
    by (rule summed_label_gone)
  then show ?thesis
    by (auto simp: contract_values_def Let_def)
qed

lemma reindex_noop:
  assumes "old \<notin> set (inds (tensor_objs h ! r))"
  shows "reindex_inplace r [old \<mapsto> new] h = h"
proof -
  have "map (\<lambda>i. case [old \<mapsto> new] i of Some j \<Rightarrow> j | None \<Rightarrow> i) (inds (tensor_objs h ! r))
          = inds (tensor_objs h ! r)"
    using assms by (intro map_idI) auto
  then show ?thesis by (simp add: reindex_inplace_def)
qed

lemma rename_pass_noop:
  "\<forall>r \<in> set rs. old \<notin> set (inds (tensor_objs h ! r)) \<Longrightarrow>
   foldl (\<lambda>hh t. reindex_inplace t [old \<mapsto> new] hh) h rs = h"
  by (induction rs) (simp_all add: reindex_noop)

lemma rename_all_noop:
  "\<forall>t \<in> set (tensor_values h n). old \<notin> set (inds t) \<Longrightarrow> rename_all n old new h = h"
  unfolding rename_all_def by (rule rename_pass_noop) (simp add: tensor_values_def)

subsection \<open>Frame\<close>

lemma extends_lengths:
  assumes "extends h h'"
  shows "length (tensor_objs h) \<le> length (tensor_objs h')"
    and "length (network_objs h) \<le> length (network_objs h')"
proof -
  from assms have "length (take (length (tensor_objs h)) (tensor_objs h')) = length (tensor_objs h)"
    by (simp add: extends_def)
  then show "length (tensor_objs h) \<le> length (tensor_objs h')" by simp
  from assms have "length (take (length (network_objs h)) (network_objs h')) = length (network_objs h)"
    by (simp add: extends_def)
  then show "length (network_objs h) \<le> length (network_objs h')" by simp
qed

lemma tn_copy_extends: "extends h (snd (tn_copy n h))"
  by (simp add: extends_def tn_copy_def Let_def)

lemma tn_copy_private: "private_net h (fst (tn_copy n h)) (snd (tn_copy n h))"
  by (simp add: private_net_def tn_copy_tensors) (simp add: tn_copy_def Let_def)

lemma reindex_frame:
  assumes "extends h h'" and "private_net h tn h'" and "length (tensor_objs h) \<le> r"
  shows "extends h (reindex_inplace r m h') \<and> private_net h tn (reindex_inplace r m h')"
  using assms
  by (simp add: extends_def private_net_def reindex_inplace_def tn_tensors_def)

lemma rename_pass_frame:
  assumes "extends h h'" and "private_net h tn h'"
    and "\<forall>r \<in> set rs. length (tensor_objs h) \<le> r"
  shows "extends h (foldl (\<lambda>hh t. reindex_inplace t m hh) h' rs) \<and>
         private_net h tn (foldl (\<lambda>hh t. reindex_inplace t m hh) h' rs)"
  using assms
proof (induction rs arbitrary: h')
  case Nil
  then show ?case by simp
next
  case (Cons r rs)
  from Cons.prems have "extends h (reindex_inplace r m h') \<and> private_net h tn (reindex_inplace r m h')"
    by (intro reindex_frame) simp_all
  with Cons.IH[of "reindex_inplace r m h'"] Cons.prems(3) show ?case by simp
qed

lemma rename_all_frame:
  assumes "extends h h'" and "private_net h tn h'"
  shows "extends h (rename_all tn old new h') \<and> private_net h tn (rename_all tn old new h')"
  unfolding rename_all_def
  using assms by (intro rename_pass_frame) (simp_all add: private_net_def)

lemma contract_ind_frame:
  assumes "extends h h'" and "private_net h tn h'"
  shows "extends h (snd (contract_ind tn l h')) \<and> private_net h tn (snd (contract_ind tn l h'))"
proof (cases "l \<in> dom (ind_map h' tn)")
  case False
  with assms show ?thesis by (simp add: contract_ind_missing)
next
  case True
  have len: "length (tensor_objs h) \<le> length (tensor_objs h')"
    by (rule extends_lengths[OF assms(1)])
  show ?thesis
    using assms len
    by (auto simp: contract_ind_present[OF True] extends_def private_net_def tn_tensors_def)
qed

lemma contract_loop_frame:
  assumes "extends h h'" and "private_net h tn h'"
  shows "extends h (snd (contract_loop tn ls h')) \<and> private_net h tn (snd (contract_loop tn ls h'))"
  using assms
proof (induction ls arbitrary: h')
  case Nil
  then show ?case by simp
next
  case (Cons ind rest)
  show ?case
  proof (cases "ind \<in> dom (ind_map h' tn)")
    case False
    with Cons.prems show ?thesis by simp
  next
    case True
    from contract_ind_frame[OF Cons.prems]
    have "extends h (snd (contract_ind tn ind h'))" and "private_net h tn (snd (contract_ind tn ind h'))"
      by simp_all
    then show ?thesis
      by (simp only: contract_loop_step[OF True] Cons.IH)
  qed
qed

lemma contract_indices_snd:
  "snd (contract_indices self ls h) =
     snd (contract_loop (fst (tn_copy (network self) h)) ls (snd (tn_copy (network self) h)))"
  by (simp add: contract_indices_def split: prod.splits sum.splits)

lemma contract_indices_frame: "extends h (snd (contract_indices self ls h))"
  unfolding contract_indices_snd
  using contract_loop_frame[OF tn_copy_extends tn_copy_private] by blast

lemma contract_two_indices_frame: "extends h (snd (contract_two_indices self ind1 ind2 h))"
proof -
  let ?tn = "fst (tn_copy (network self) h)" and ?h1 = "snd (tn_copy (network self) h)"
  have copy: "tn_copy (network self) h = (?tn, ?h1)" by simp
  have e1: "extends h ?h1" and p1: "private_net h ?tn ?h1"
    by (rule tn_copy_extends, rule tn_copy_private)
  let ?h2 = "snd (contract_ind ?tn ind1 ?h1)"
  have e2: "extends h ?h2" and p2: "private_net h ?tn ?h2"
    using contract_ind_frame[OF e1 p1] by simp_all
  have e3: "extends h (snd (contract_ind ?tn ind2 ?h2))"
    using contract_ind_frame[OF e2 p2] by simp
  show ?thesis
  proof (cases "ind1 \<in> dom (ind_map ?h1 ?tn) \<and> ind2 \<in> dom (ind_map ?h1 ?tn)")
    case True
    then have "snd (contract_two_indices self ind1 ind2 h) = snd (contract_ind ?tn ind2 ?h2)"
      by (simp add: contract_two_indices_present[OF copy] split: prod.splits sum.splits)
    with e3 show ?thesis by simp
  next
    case False
    then have "snd (contract_two_indices self ind1 ind2 h) = ?h1"
      by (auto simp: contract_two_indices_def split: prod.splits)
    with e1 show ?thesis by simp
  qed
qed

lemma fuse_frame: "extends h (snd (fuse_and_contract_indices self ind1 ind2 h))"
proof -
  let ?tn = "fst (tn_copy (network self) h)" and ?h1 = "snd (tn_copy (network self) h)"
  have copy: "tn_copy (network self) h = (?tn, ?h1)" by simp
  let ?h2 = "rename_all ?tn ind2 ind1 ?h1"
  have e2: "extends h ?h2" and p2: "private_net h ?tn ?h2"
    using rename_all_frame[OF tn_copy_extends tn_copy_private] by blast+
  have e3: "extends h (snd (contract_ind ?tn ind1 ?h2))"
    using contract_ind_frame[OF e2 p2] by simp
  have "snd (fuse_and_contract_indices self ind1 ind2 h) = ?h2 \<or>
        snd (fuse_and_contract_indices self ind1 ind2 h) = snd (contract_ind ?tn ind1 ?h2)"
    by (simp add: fuse_and_contract_indices_def copy[simplified] Let_def split: prod.splits sum.splits)
  with e2 e3 show ?thesis by auto
qed

lemma extends_view:
  assumes "extends h h'" and "valid_net n h"
  shows "tn_tensors h' n = tn_tensors h n"
    and "tensor_values h' n = tensor_values h n"
    and "ind_map h' n = ind_map h n"
proof -
  from assms have n: "n < length (network_objs h)"
    and refs: "\<forall>r \<in> set (tn_tensors h n). r < length (tensor_objs h)"
    by (simp_all add: valid_net_def)
  have "network_objs h' ! n = take (length (network_objs h)) (network_objs h') ! n"
    using n by simp
  also have "\<dots> = network_objs h ! n" using assms(1) by (simp add: extends_def)
  finally show nets: "tn_tensors h' n = tn_tensors h n" by (simp add: tn_tensors_def)
  have obj: "tensor_objs h' ! r = tensor_objs h ! r" if "r < length (tensor_objs h)" for r
  proof -
    have "tensor_objs h' ! r = take (length (tensor_objs h)) (tensor_objs h') ! r"
      using that by simp
    also have "\<dots> = tensor_objs h ! r" using assms(1) by (simp add: extends_def)
    finally show ?thesis .
  qed
  show vals: "tensor_values h' n = tensor_values h n"
    using refs by (simp add: tensor_values_def nets obj)
  have "owners h' n l = owners h n l" for l
    unfolding owners_def nets by (rule filter_cong) (use refs in \<open>simp_all add: obj\<close>)
  then show "ind_map h' n = ind_map h n"
    by (intro ext) (simp add: ind_map_def)
qed

subsection \<open>Renaming\<close>

lemma reindex_inplace_rename:
  "reindex_inplace r [old \<mapsto> new] h =
     h\<lparr>tensor_objs := (tensor_objs h)[r := rename_leg old new (tensor_objs h ! r)]\<rparr>"
proof -
  have "(\<lambda>i. case [old \<mapsto> new] i of Some j \<Rightarrow> j | None \<Rightarrow> i) = (\<lambda>i. if i = old then new else i)"
    by (rule ext) simp
  then show ?thesis by (simp add: reindex_inplace_def rename_leg_def)
qed

lemma rename_leg_idem: "rename_leg old new (rename_leg old new t) = rename_leg old new t"
  by (simp add: rename_leg_def)

lemma rename_leg_inds:
  "a \<in> set (inds (rename_leg b a t)) \<longleftrightarrow> a \<in> set (inds t) \<or> b \<in> set (inds t)"
  by (auto simp: rename_leg_def)

lemma update_pass_objs:
  assumes step: "\<And>hh t. f hh t = hh\<lparr>tensor_objs := (tensor_objs hh)[t := g (tensor_objs hh ! t)]\<rparr>"
    and idem: "\<And>x. g (g x) = g x"
  shows "network_objs (foldl f h rs) = network_objs h \<and>
         length (tensor_objs (foldl f h rs)) = length (tensor_objs h) \<and>
         (\<forall>i < length (tensor_objs h).
            tensor_objs (foldl f h rs) ! i =
              (if i \<in> set rs then g (tensor_objs h ! i) else tensor_objs h ! i))"
proof (induction rs arbitrary: h)
  case Nil
  show ?case by simp
next
  case (Cons r rs)
  have objs: "tensor_objs (f h r) = (tensor_objs h)[r := g (tensor_objs h ! r)]"
    and nets: "network_objs (f h r) = network_objs h"
    by (simp_all add: step)
  have len: "length (tensor_objs (f h r)) = length (tensor_objs h)" by (simp add: objs)
  note IH = Cons.IH[of "f h r"]
  have "\<forall>i < length (tensor_objs h).
      tensor_objs (foldl f (f h r) rs) ! i =
        (if i \<in> set (r # rs) then g (tensor_objs h ! i) else tensor_objs h ! i)"
  proof (intro allI impI)
    fix i assume i: "i < length (tensor_objs h)"
    with IH len have "tensor_objs (foldl f (f h r) rs) ! i =
        (if i \<in> set rs then g (tensor_objs (f h r) ! i) else tensor_objs (f h r) ! i)"
      by simp
    also have "\<dots> = (if i \<in> set (r # rs) then g (tensor_objs h ! i) else tensor_objs h ! i)"
      using i by (cases "i = r") (simp_all add: objs idem)
    finally show "tensor_objs (foldl f (f h r) rs) ! i =
        (if i \<in> set (r # rs) then g (tensor_objs h ! i) else tensor_objs h ! i)" .
  qed
  with IH len nets show ?case by simp
qed

lemma rename_pass_objs:
  "network_objs (foldl (\<lambda>hh t. reindex_inplace t [old \<mapsto> new] hh) h rs) = network_objs h \<and>
   length (tensor_objs (foldl (\<lambda>hh t. reindex_inplace t [old \<mapsto> new] hh) h rs)) = length (tensor_objs h) \<and>
   (\<forall>i < length (tensor_objs h).
      tensor_objs (foldl (\<lambda>hh t. reindex_inplace t [old \<mapsto> new] hh) h rs) ! i =
        (if i \<in> set rs then rename_leg old new (tensor_objs h ! i) else tensor_objs h ! i))"
  by (rule update_pass_objs) (rule reindex_inplace_rename, rule rename_leg_idem)

lemma rename_all_network_objs: "network_objs (rename_all n old new h) = network_objs h"
  unfolding rename_all_def using rename_pass_objs by blast

lemma rename_all_valid:
  "valid_net n h \<Longrightarrow> valid_net n (rename_all n old new h)"
  using rename_pass_objs[of old new h "tn_tensors h n"]
  by (simp add: valid_net_def rename_all_def tn_tensors_def)

lemma rename_all_values:
  assumes "valid_net n h"
  shows "tensor_values (rename_all n old new h) n = map (rename_leg old new) (tensor_values h n)"
proof -
  from assms have refs: "\<forall>r \<in> set (tn_tensors h n). r < length (tensor_objs h)"
    by (simp add: valid_net_def)
  have same: "tn_tensors (rename_all n old new h) n = tn_tensors h n"
    by (simp add: tn_tensors_def rename_all_network_objs)
  have "tensor_objs (rename_all n old new h) ! r = rename_leg old new (tensor_objs h ! r)"
    if "r \<in> set (tn_tensors h n)" for r
    using that refs rename_pass_objs[of old new h "tn_tensors h n"]
    by (simp add: rename_all_def)
  then show ?thesis by (simp add: tensor_values_def same)
qed

lemma contract_indices_single:
  assumes "tn_copy (network self) h = (tn, h1)"
  shows "contract_indices self [l] h =
           (if l \<in> dom (ind_map h1 tn) then (Inr tn, snd (contract_ind tn l h1))
            else (Inl (ValueError (not_found l)), h1))"
proof (cases "l \<in> dom (ind_map h1 tn)")
  case True
  then show ?thesis
    using contract_loop_step[OF True, of "[]"]
    by (simp add: contract_indices_def assms del: contract_loop.simps(2))
next
  case False
  then show ?thesis by (simp add: contract_indices_def assms)
qed

lemma fuse_unfold:
  assumes "tn_copy (network self) h = (tn, h1)"
  shows "fuse_and_contract_indices self ind1 ind2 h =
           (if ind1 \<in> dom (ind_map (rename_all tn ind2 ind1 h1) tn)
            then (Inr tn, snd (contract_ind tn ind1 (rename_all tn ind2 ind1 h1)))
            else (Inl (ValueError (not_found_after_fusing ind1)), rename_all tn ind2 ind1 h1))"
proof (cases "ind1 \<in> dom (ind_map (rename_all tn ind2 ind1 h1) tn)")
  case True
  obtain res h3 where step: "contract_ind tn ind1 (rename_all tn ind2 ind1 h1) = (res, h3)"
    by (cases "contract_ind tn ind1 (rename_all tn ind2 ind1 h1)")
  with contract_ind_fst[OF True] have "res = Inr ()" by simp
  with True step show ?thesis by (simp add: fuse_and_contract_indices_def assms)
next
  case False
  then show ?thesis by (simp add: fuse_and_contract_indices_def assms)
qed

lemma dom_by_value: "m x \<noteq> None \<Longrightarrow> x \<in> dom m" "m x = None \<Longrightarrow> x \<notin> dom m"
  by (simp_all add: domIff)

section \<open>Lemmas about the full contraction\<close>

subsection \<open>Multi-indices and their positions\<close>

lemma multi_indices_Nil: "multi_indices [] = [[]]"
  by (simp add: multi_indices_def)

lemma multi_indices_Cons:
  "multi_indices (d # ds) = concat (map (\<lambda>i. map ((#) i) (multi_indices ds)) [0..<d])"
  by (simp add: multi_indices_def)

lemma length_multi_indices: "length (multi_indices ds) = prod_list ds"
proof (induction ds)
  case Nil
  show ?case by (simp add: multi_indices_Nil)
next
  case (Cons d ds)
  have "length (multi_indices (d # ds)) =
          sum_list (map (\<lambda>i. prod_list ds) [0..<d])"
    by (simp add: multi_indices_Cons length_concat comp_def Cons.IH)
  also have "\<dots> = d * prod_list ds" by (simp add: sum_list_triv)
  finally show ?case by simp
qed

lemma set_multi_indices:
  fixes ds :: "nat list"
  shows "idx \<in> set (multi_indices ds) \<longleftrightarrow> list_all2 (<) idx ds"
proof (induction ds arbitrary: idx)
  case Nil
  show ?case by (auto simp: multi_indices_Nil)
next
  case (Cons d ds)
  show ?case
    by (cases idx) (auto simp: multi_indices_Cons Cons.IH image_iff)
qed

lemma offset_foldl:
  fixes ds idx :: "nat list" and a :: nat
  shows "length idx = length ds \<Longrightarrow>
   foldl (\<lambda>acc (d, i). acc * d + i) a (zip ds idx) =
     a * prod_list ds + foldl (\<lambda>acc (d, i). acc * d + i) 0 (zip ds idx)"
proof (induction ds arbitrary: idx a)
  case Nil
  then show ?case by simp
next
  case (Cons d ds)
  then obtain i idx' where idx: "idx = i # idx'" and len: "length idx' = length ds"
    by (cases idx) auto
  let ?g = "\<lambda>acc (d, i). acc * d + i"
  have one: "foldl ?g (a * d + i) (zip ds idx') =
      (a * d + i) * prod_list ds + foldl ?g 0 (zip ds idx')"
    by (rule Cons.IH[OF len])
  have two: "foldl ?g i (zip ds idx') = i * prod_list ds + foldl ?g 0 (zip ds idx')"
    by (rule Cons.IH[OF len])
  have "foldl ?g a (zip (d # ds) idx) = foldl ?g (a * d + i) (zip ds idx')"
    by (simp add: idx)
  also have "\<dots> = a * prod_list (d # ds) + foldl ?g i (zip ds idx')"
    unfolding one two by (simp add: algebra_simps)
  also have "foldl ?g i (zip ds idx') = foldl ?g 0 (zip (d # ds) idx)"
    by (simp add: idx)
  finally show ?case .
qed

lemma offset_Nil: "offset [] [] = 0"
  by (simp add: offset_def)

lemma offset_Cons:
  "length idx = length ds \<Longrightarrow> offset (d # ds) (i # idx) = i * prod_list ds + offset ds idx"
  using offset_foldl[of idx ds i] by (simp add: offset_def)

lemma nth_concat_uniform:
  "(\<forall>x \<in> set xs. length (g x) = n) \<Longrightarrow> i < length xs \<Longrightarrow> j < n \<Longrightarrow>
   concat (map g xs) ! (i * n + j) = g (xs ! i) ! j"
proof (induction xs arbitrary: i)
  case Nil
  then show ?case by simp
next
  case (Cons x xs)
  show ?case
  proof (cases i)
    case 0
    with Cons.prems show ?thesis by (simp add: nth_append)
  next
    case (Suc i')
    with Cons.prems have "concat (map g xs) ! (i' * n + j) = g (xs ! i') ! j"
      by (intro Cons.IH) simp_all
    with Suc Cons.prems show ?thesis by (simp add: nth_append)
  qed
qed

lemma nth_multi_indices:
  "list_all2 (<) idx ds \<Longrightarrow>
   offset ds idx < prod_list ds \<and> multi_indices ds ! offset ds idx = idx"
proof (induction idx ds rule: list_all2_induct)
  case Nil
  show ?case by (simp add: offset_Nil multi_indices_Nil)
next
  case (Cons i idx d ds)
  let ?P = "prod_list ds"
  have len: "length idx = length ds" using Cons.hyps(2) by (rule list_all2_lengthD)
  have off: "offset (d # ds) (i # idx) = i * ?P + offset ds idx"
    by (rule offset_Cons[OF len])
  have o': "offset ds idx < ?P" and nth': "multi_indices ds ! offset ds idx = idx"
    using Cons.IH by simp_all
  have "i * ?P + offset ds idx < Suc i * ?P" using o' by simp
  also have "\<dots> \<le> d * ?P" using Cons.hyps(1) by (intro mult_le_mono1) simp
  finally have bound: "offset (d # ds) (i # idx) < prod_list (d # ds)" by (simp add: off)
  have "multi_indices (d # ds) ! (i * ?P + offset ds idx) =
          map ((#) i) (multi_indices ds) ! offset ds idx"
    unfolding multi_indices_Cons
    using nth_concat_uniform[of "[0..<d]" "\<lambda>i. map ((#) i) (multi_indices ds)" ?P i "offset ds idx"]
      Cons.hyps(1) o'
    by (simp add: length_multi_indices)
  also have "\<dots> = i # idx" using o' nth' by (simp add: length_multi_indices)
  finally show ?case using bound by (simp add: off)
qed

lemma nth_map_multi_indices:
  assumes "list_all2 (<) idx ds"
  shows "map f (multi_indices ds) ! offset ds idx = f idx"
  using nth_multi_indices[OF assms] by (simp add: length_multi_indices)

subsection \<open>Sums over assignments\<close>

lemma envs_empty: "envs D {} = {Map.empty}"
  by (auto simp: envs_def)

lemma envs_insert:
  assumes "l \<notin> A"
  shows "envs D (insert l A) = (\<lambda>(i, e). e(l \<mapsto> i)) ` ({..<D l} \<times> envs D A)"
proof (intro set_eqI iffI)
  fix e assume e: "e \<in> envs D (insert l A)"
  then have dom: "dom e = insert l A" and bound: "\<forall>k \<in> insert l A. the (e k) < D k"
    by (simp_all add: envs_def)
  from dom obtain i where i: "e l = Some i" by auto
  let ?e' = "e(l := None)"
  have "dom ?e' = A" using dom assms by auto
  moreover have "\<forall>k \<in> A. the (?e' k) < D k" using bound assms by auto
  ultimately have "?e' \<in> envs D A" by (simp add: envs_def)
  moreover have "i < D l" using bound i by auto
  moreover have "e = ?e'(l \<mapsto> i)" using i by (intro ext) simp
  ultimately show "e \<in> (\<lambda>(i, e). e(l \<mapsto> i)) ` ({..<D l} \<times> envs D A)"
    by (intro image_eqI[where x = "(i, ?e')"]) simp_all
next
  fix e assume "e \<in> (\<lambda>(i, e). e(l \<mapsto> i)) ` ({..<D l} \<times> envs D A)"
  then obtain i e' where "e = e'(l \<mapsto> i)" "i < D l" "e' \<in> envs D A" by auto
  then show "e \<in> envs D (insert l A)" using assms by (auto simp: envs_def)
qed

lemma envs_insert_inj:
  assumes "l \<notin> A"
  shows "inj_on (\<lambda>(i, e). e(l \<mapsto> i)) ({..<D l} \<times> envs D A)"
proof (rule inj_onI)
  fix p q
  assume p: "p \<in> {..<D l} \<times> envs D A" and q: "q \<in> {..<D l} \<times> envs D A"
    and eq: "(case p of (i, e) \<Rightarrow> e(l \<mapsto> i)) = (case q of (i, e) \<Rightarrow> e(l \<mapsto> i))"
  obtain i e where pd: "p = (i, e)" by (cases p)
  obtain j f where qd: "q = (j, f)" by (cases q)
  from eq have upd: "e(l \<mapsto> i) = f(l \<mapsto> j)" by (simp add: pd qd)
  then have "(e(l \<mapsto> i)) l = (f(l \<mapsto> j)) l" by simp
  then have ij: "i = j" by simp
  have "e l = None" "f l = None" using p q assms by (auto simp: pd qd envs_def)
  then have "e = f"
    using upd by (metis fun_upd_triv fun_upd_upd)
  with ij show "p = q" by (simp add: pd qd)
qed

lemma sum_envs_insert:
  fixes f :: "(label \<rightharpoonup> nat) \<Rightarrow> 'a::comm_semiring_1"
  assumes "l \<notin> A"
  shows "(\<Sum>e \<in> envs D (insert l A). f e) = (\<Sum>i<D l. \<Sum>e \<in> envs D A. f (e(l \<mapsto> i)))"
proof -
  have "(\<Sum>e \<in> envs D (insert l A). f e) =
        (\<Sum>p \<in> {..<D l} \<times> envs D A. f (case p of (i, e) \<Rightarrow> e(l \<mapsto> i)))"
    unfolding envs_insert[OF assms]
    by (subst sum.reindex[OF envs_insert_inj[OF assms]]) (simp add: comp_def)
  also have "\<dots> = (\<Sum>i<D l. \<Sum>e \<in> envs D A. f (e(l \<mapsto> i)))"
    by (simp add: sum.cartesian_product case_prod_unfold)
  finally show ?thesis .
qed

lemma sum_list_of_concat:
  fixes xss :: "'a::comm_semiring_1 list list"
  shows "sum_list (concat xss) = sum_list (map sum_list xss)"
  by (induction xss) simp_all

lemma sum_list_multi_indices:
  fixes f :: "(label \<rightharpoonup> nat) \<Rightarrow> 'a::comm_semiring_1"
  assumes "distinct S"
  shows "sum_list (map (\<lambda>sidx. f (map_of (zip S sidx))) (multi_indices (map D S))) =
           (\<Sum>e \<in> envs D (set S). f e)"
  using assms
proof (induction S arbitrary: f)
  case Nil
  show ?case by (simp add: multi_indices_Nil envs_empty)
next
  case (Cons l S)
  then have fresh: "l \<notin> set S" and dist: "distinct S" by simp_all
  have "sum_list (map (\<lambda>sidx. f (map_of (zip (l # S) sidx))) (multi_indices (map D (l # S)))) =
        sum_list (map (\<lambda>i. sum_list (map (\<lambda>sidx. f ((map_of (zip S sidx))(l \<mapsto> i)))
                                          (multi_indices (map D S)))) [0..<D l])"
    by (simp add: multi_indices_Cons map_concat sum_list_of_concat comp_def)
  also have "\<dots> = sum_list (map (\<lambda>i. \<Sum>e \<in> envs D (set S). f (e(l \<mapsto> i))) [0..<D l])"
    by (intro arg_cong[where f = sum_list] map_cong refl Cons.IH[OF dist])
  also have "\<dots> = (\<Sum>i<D l. \<Sum>e \<in> envs D (set S). f (e(l \<mapsto> i)))"
    by (simp add: sum_list_distinct_conv_sum_set atLeast0LessThan)
  also have "\<dots> = (\<Sum>e \<in> envs D (set (l # S)). f e)"
    using sum_envs_insert[OF fresh, where D = D and f = f] by simp
  finally show ?case .
qed

lemma sum_envs_union:
  fixes f :: "(label \<rightharpoonup> nat) \<Rightarrow> 'a::comm_semiring_1"
  assumes "distinct S" and "A \<inter> set S = {}"
  shows "(\<Sum>e \<in> envs D (A \<union> set S). f e) =
           (\<Sum>a \<in> envs D A. \<Sum>s \<in> envs D (set S). f (a ++ s))"
  using assms
proof (induction S arbitrary: f)
  case Nil
  show ?case by (simp add: envs_empty)
next
  case (Cons l S)
  then have fresh: "l \<notin> A \<union> set S" and freshS: "l \<notin> set S"
    and dist: "distinct S" and disj: "A \<inter> set S = {}" by auto
  have "(\<Sum>e \<in> envs D (A \<union> set (l # S)). f e) =
        (\<Sum>i<D l. \<Sum>e \<in> envs D (A \<union> set S). f (e(l \<mapsto> i)))"
    using sum_envs_insert[OF fresh, where D = D and f = f] by simp
  also have "\<dots> = (\<Sum>i<D l. \<Sum>a \<in> envs D A. \<Sum>s \<in> envs D (set S). f ((a ++ s)(l \<mapsto> i)))"
    by (simp add: Cons.IH[OF dist disj])
  also have "\<dots> = (\<Sum>a \<in> envs D A. \<Sum>i<D l. \<Sum>s \<in> envs D (set S). f ((a ++ s)(l \<mapsto> i)))"
    by (rule sum.swap)
  also have "\<dots> = (\<Sum>a \<in> envs D A. \<Sum>s \<in> envs D (set (l # S)). f (a ++ s))"
  proof (rule sum.cong[OF refl])
    fix a
    have "(\<Sum>s \<in> envs D (insert l (set S)). f (a ++ s)) =
          (\<Sum>i<D l. \<Sum>s \<in> envs D (set S). f (a ++ s(l \<mapsto> i)))"
      by (rule sum_envs_insert[OF freshS])
    then show "(\<Sum>i<D l. \<Sum>s \<in> envs D (set S). f ((a ++ s)(l \<mapsto> i))) =
               (\<Sum>s \<in> envs D (set (l # S)). f (a ++ s))"
      by simp
  qed
  finally show ?case .
qed

subsection \<open>Well-formed tensors and the value of a merge\<close>

lemma map_of_axes:
  "list_all (wf_tensor D) ts \<Longrightarrow>
   map_of (axes_of ts) l = (if l \<in> set (concat (map inds ts)) then Some (D l) else None)"
proof (induction ts)
  case Nil
  show ?case by (simp add: axes_of_def)
next
  case (Cons t ts)
  then have "wf_tensor D t" and rest: "list_all (wf_tensor D) ts" by simp_all
  then have t: "shape (data t) = map D (inds t)" by (simp add: wf_tensor_def)
  have "axes_of (t # ts) = zip (inds t) (map D (inds t)) @ axes_of ts"
    by (simp add: axes_of_def t)
  then show ?case
    using Cons.IH[OF rest] by (auto simp: map_of_zip_map map_add_def split: option.splits)
qed

lemma dim_of_axes:
  "list_all (wf_tensor D) ts \<Longrightarrow> l \<in> set (concat (map inds ts)) \<Longrightarrow>
   dim_of (axes_of ts) l = D l"
  by (simp add: dim_of_def map_of_axes del: set_concat)

lemma map_dim_of_axes:
  assumes "list_all (wf_tensor D) ts" and "set ls \<subseteq> set (concat (map inds ts))"
  shows "map (dim_of (axes_of ts)) ls = map D ls"
  using assms by (intro map_cong refl dim_of_axes) auto

lemma term_prod_cong:
  "(\<forall>t \<in> set ts. \<forall>l \<in> set (inds t). env l = env' l) \<Longrightarrow> term_prod env ts = term_prod env' ts"
  unfolding term_prod_def axis_index_def
  by (intro arg_cong[where f = prod_list] map_cong refl arg_cong[where f = "at _"]) simp

lemma term_prod_append: "term_prod env (xs @ ys) = term_prod env xs * term_prod env ys"
  by (simp add: term_prod_def)

lemma term_prod_single: "term_prod env [t] = at (data t) (axis_index env (inds t))"
  by (simp add: term_prod_def)

lemma term_prod_partition:
  "term_prod env (filter (\<lambda>t. \<not> P t) ts) * term_prod env (filter P ts) = term_prod env ts"
  by (induction ts) (simp_all add: term_prod_def algebra_simps)

lemma at_tensor_contract:
  assumes "list_all2 (<) oidx (map (dim_of (axes_of ts)) out)"
  shows "at (data (tensor_contract out ts)) oidx =
           sum_list (map (\<lambda>sidx. term_prod
                            (map_of (zip out oidx @
                               zip (remdups (filter (\<lambda>l. l \<notin> set out) (concat (map inds ts)))) sidx)) ts)
                         (multi_indices (map (dim_of (axes_of ts))
                            (remdups (filter (\<lambda>l. l \<notin> set out) (concat (map inds ts)))))))"
  by (simp add: at_def tensor_contract_def Let_def nth_map_multi_indices[OF assms])

lemma tensor_contract_value:
  fixes ts :: "'a::comm_semiring_1 tensor list"
  assumes wf: "list_all (wf_tensor D) ts"
    and sub: "set out \<subseteq> set (concat (map inds ts))"
    and bounds: "list_all2 (<) oidx (map D out)"
  shows "at (data (tensor_contract out ts)) oidx =
           (\<Sum>e \<in> envs D (set (concat (map inds ts)) - set out).
              term_prod (e ++ map_of (zip out oidx)) ts)"
proof -
  let ?S = "remdups (filter (\<lambda>l. l \<notin> set out) (concat (map inds ts)))"
  have dims_out: "map (dim_of (axes_of ts)) out = map D out"
    by (rule map_dim_of_axes[OF wf sub])
  have dims_S: "map (dim_of (axes_of ts)) ?S = map D ?S"
    by (rule map_dim_of_axes[OF wf]) auto
  have set_S: "set ?S = set (concat (map inds ts)) - set out" by auto
  have "at (data (tensor_contract out ts)) oidx =
          sum_list (map (\<lambda>sidx. term_prod (map_of (zip out oidx @ zip ?S sidx)) ts)
                        (multi_indices (map D ?S)))"
    using at_tensor_contract[of oidx ts out] bounds by (simp only: dims_out dims_S)
  also have "\<dots> = sum_list (map (\<lambda>sidx. term_prod (map_of (zip ?S sidx) ++ map_of (zip out oidx)) ts)
                        (multi_indices (map D ?S)))"
    by (simp only: map_of_append)
  also have "\<dots> = (\<Sum>e \<in> envs D (set ?S). term_prod (e ++ map_of (zip out oidx)) ts)"
    by (rule sum_list_multi_indices) simp
  finally show ?thesis by (simp only: set_S)
qed

lemma wf_tensor_contract:
  assumes wf: "list_all (wf_tensor D) ts"
    and sub: "set out \<subseteq> set (concat (map inds ts))" and dist: "distinct out"
  shows "wf_tensor D (tensor_contract out ts)"
  using dist
  by (simp add: wf_tensor_def tensor_contract_def Let_def length_multi_indices
      map_dim_of_axes[OF wf sub])

lemma zip_env:
  assumes "distinct os" and "list_all2 (<) oidx (map D os)"
  shows "dom (map_of (zip os oidx)) = set os"
    and "l \<in> set os \<Longrightarrow> \<exists>i<D l. map_of (zip os oidx) l = Some i"
proof -
  have len: "length oidx = length os" using assms(2) by (simp add: list_all2_lengthD)
  then show "dom (map_of (zip os oidx)) = set os" by (simp add: dom_map_of_zip)
  assume "l \<in> set os"
  then obtain k where k: "k < length os" "os ! k = l" by (auto simp: in_set_conv_nth)
  have "map_of (zip os oidx) (os ! k) = Some (oidx ! k)"
    using assms(1) k(1) len by (intro map_of_zip_nth) simp_all
  moreover have "oidx ! k < D (os ! k)"
    using list_all2_nthD2[OF assms(2), of k] k(1) by simp
  ultimately show "\<exists>i<D l. map_of (zip os oidx) l = Some i" using k(2) by auto
qed

subsection \<open>One contraction does not change the value of the network\<close>

lemma count_partition:
  "length (filter P ws) =
     length (filter P (filter Q ws)) + length (filter P (filter (\<lambda>t. \<not> Q t) ws))"
  by (induction ws) simp_all

lemma carried_iff_count:
  "(\<exists>t \<in> set ts. l \<in> set (inds t)) \<longleftrightarrow> 1 \<le> length (filter (\<lambda>t. l \<in> set (inds t)) ts)"
  by (induction ts) auto

lemma axis_index_bounds:
  assumes "\<forall>l \<in> set ls. \<exists>i<D l. env l = Some i"
  shows "list_all2 (<) (axis_index env ls) (map D ls)"
  using assms
  by (auto simp: axis_index_def list_all2_map1 list_all2_map2 intro!: list_all2_same[THEN iffD2])

lemma map_of_zip_axis_index:
  assumes "l \<in> set ls" and "env l = Some i"
  shows "map_of (zip ls (axis_index env ls)) l = Some i"
  using assms by (simp add: axis_index_def map_of_zip_map)

lemma map_of_zip_axis_index_None:
  assumes "l \<notin> set ls"
  shows "map_of (zip ls (axis_index env ls)) l = None"
  using assms by (simp add: axis_index_def map_of_zip_map)

lemma contract_values_step:
  fixes ws :: "'a::comm_semiring_1 tensor list"
  assumes wf: "list_all (wf_tensor D) ws"
    and dist: "distinct os"
    and outer: "\<forall>l \<in> set os. length (filter (\<lambda>t. l \<in> set (inds t)) ws) = 1"
  shows "list_all (wf_tensor D) (contract_values x ws)"
    and "\<forall>l \<in> set os. length (filter (\<lambda>t. l \<in> set (inds t)) (contract_values x ws)) = 1"
    and "list_all2 (<) oidx (map D os) \<Longrightarrow>
         at (data (tensor_contract os (contract_values x ws))) oidx =
         at (data (tensor_contract os ws)) oidx"
proof -
  define rest where "rest = filter (\<lambda>t. x \<notin> set (inds t)) ws"
  define ow where "ow = filter (\<lambda>t. x \<in> set (inds t)) ws"
  define keep where "keep = concat (map inds rest)"
  define Sl where "Sl = summed_inds keep ow"
  define outM where "outM = output_inds keep ow"
  define M where "M = tensor_contract outM ow"
  define Lr where "Lr = set (concat (map inds rest))"
  define Lo where "Lo = set (concat (map inds ow))"
  define cnt where "cnt = (\<lambda>ts l. length (filter (\<lambda>t::'a tensor. l \<in> set (inds t)) ts))"
  have cv: "contract_values x ws = rest @ [M]"
    by (simp add: contract_values_def Let_def rest_def ow_def keep_def outM_def M_def)
  have ow_alt: "ow = filter (\<lambda>t. \<not> x \<notin> set (inds t)) ws" by (simp add: ow_def)
  have L_ws: "set (concat (map inds ws)) = Lr \<union> Lo"
    by (auto simp: Lr_def Lo_def rest_def ow_def)
  have cnt_ws: "cnt ws l = cnt rest l + cnt ow l" for l
    unfolding cnt_def rest_def ow_alt by (rule count_partition)
  have in_Lr: "l \<in> Lr \<longleftrightarrow> 1 \<le> cnt rest l" for l
    using carried_iff_count[of rest l] by (simp add: Lr_def cnt_def)
  have in_Lo: "l \<in> Lo \<longleftrightarrow> 1 \<le> cnt ow l" for l
    using carried_iff_count[of ow l] by (simp add: Lo_def cnt_def)
  have set_Sl: "set Sl = {l \<in> Lo. l \<notin> Lr \<and> 2 \<le> cnt ow l}"
    by (auto simp: Sl_def summed_inds_def keep_def Lo_def Lr_def cnt_def)
  have dist_Sl: "distinct Sl" by (simp add: Sl_def summed_inds_def)
  have set_outM: "set outM = Lo - set Sl"
    by (auto simp: outM_def output_inds_def Sl_def Lo_def)
  have dist_outM: "distinct outM" by (simp add: outM_def output_inds_def)
  have inds_M: "inds M = outM" by (simp add: M_def tensor_contract_def Let_def)
  have wf_rest: "list_all (wf_tensor D) rest" and wf_ow: "list_all (wf_tensor D) ow"
    using wf by (simp_all add: rest_def ow_def list_all_iff)
  have sub_outM: "set outM \<subseteq> set (concat (map inds ow))"
    using set_outM by (auto simp: Lo_def)
  have wf_M: "wf_tensor D M"
    unfolding M_def by (rule wf_tensor_contract[OF wf_ow sub_outM dist_outM])
  show wf': "list_all (wf_tensor D) (contract_values x ws)"
    by (simp add: cv wf_rest wf_M)
  have os_one: "cnt ws l = 1" if "l \<in> set os" for l
    using outer that by (simp add: cnt_def)
  have os_Sl: "l \<notin> set Sl" if "l \<in> set os" for l
    using os_one[OF that] cnt_ws[of l] by (auto simp: set_Sl)
  have cnt_M: "cnt [M] l = (if l \<in> set outM then 1 else 0)" for l
    by (simp add: cnt_def inds_M)
  have cnt_ws': "cnt (rest @ [M]) l = cnt rest l + cnt [M] l" for l
    by (simp add: cnt_def)
  have os_one': "cnt (rest @ [M]) l = 1" if "l \<in> set os" for l
  proof -
    have "l \<in> set outM \<longleftrightarrow> cnt ow l = 1"
      using os_one[OF that] cnt_ws[of l] os_Sl[OF that] in_Lo[of l]
      by (auto simp: set_outM)
    then show ?thesis
      using os_one[OF that] cnt_ws[of l] by (auto simp: cnt_ws' cnt_M)
  qed
  show "\<forall>l \<in> set os. length (filter (\<lambda>t. l \<in> set (inds t)) (contract_values x ws)) = 1"
    using os_one' by (simp add: cv cnt_def)
  assume bounds: "list_all2 (<) oidx (map D os)"
  define eO where "eO = map_of (zip os oidx)"
  have eO_dom: "dom eO = set os"
    and eO_val: "\<And>l. l \<in> set os \<Longrightarrow> \<exists>i<D l. eO l = Some i"
    unfolding eO_def using zip_env[OF dist bounds] by blast+
  have eO_none: "eO l = None" if "l \<notin> set os" for l
    using eO_dom that by (auto simp: domIff)
  define A' where "A' = (Lr \<union> set outM) - set os"
  have L_ws': "set (concat (map inds (rest @ [M]))) = Lr \<union> set outM"
    by (auto simp: Lr_def inds_M)
  have os_sub: "set os \<subseteq> Lr \<union> Lo"
  proof
    fix l assume "l \<in> set os"
    from os_one[OF this] cnt_ws[of l] in_Lr[of l] in_Lo[of l] show "l \<in> Lr \<union> Lo" by auto
  qed
  have os_sub': "set os \<subseteq> Lr \<union> set outM"
    using os_sub os_Sl by (auto simp: set_outM)
  have split: "(Lr \<union> Lo) - set os = A' \<union> set Sl" and disj: "A' \<inter> set Sl = {}"
    using os_Sl by (auto simp: A'_def set_outM set_Sl)
  have summed_set: "Lo - set outM = set Sl"
    using set_Sl by (auto simp: set_outM)
  \<comment> \<open>the network after the contraction\<close>
  have "at (data (tensor_contract os (rest @ [M]))) oidx =
          (\<Sum>e \<in> envs D A'. term_prod (e ++ eO) (rest @ [M]))"
    using tensor_contract_value[OF wf'[unfolded cv] _ bounds] os_sub'
    by (simp only: L_ws' A'_def eO_def)
  also have "\<dots> = (\<Sum>e \<in> envs D A'. \<Sum>s \<in> envs D (set Sl). term_prod ((e ++ s) ++ eO) ws)"
  proof (rule sum.cong[OF refl])
    fix e assume e: "e \<in> envs D A'"
    have e_val: "\<exists>i<D l. (e ++ eO) l = Some i" if "l \<in> Lr \<union> set outM" for l
    proof (cases "l \<in> set os")
      case True
      with eO_val[of l] show ?thesis by (auto simp: map_add_def split: option.splits)
    next
      case False
      with that have "l \<in> A'" by (simp add: A'_def)
      with e have "l \<in> dom e" "the (e l) < D l" by (auto simp: envs_def)
      with eO_none[OF False] show ?thesis by (auto simp: map_add_def split: option.splits)
    qed
    have boundsM: "list_all2 (<) (axis_index (e ++ eO) outM) (map D outM)"
      by (rule axis_index_bounds) (use e_val in auto)
    have "term_prod (e ++ eO) (rest @ [M]) =
            term_prod (e ++ eO) rest * at (data M) (axis_index (e ++ eO) outM)"
      by (simp add: term_prod_append term_prod_single inds_M)
    also have "at (data M) (axis_index (e ++ eO) outM) =
            (\<Sum>s \<in> envs D (set Sl).
               term_prod (s ++ map_of (zip outM (axis_index (e ++ eO) outM))) ow)"
      using tensor_contract_value[OF wf_ow sub_outM boundsM]
      by (simp only: M_def Lo_def[symmetric] summed_set)
    finally have "term_prod (e ++ eO) (rest @ [M]) =
        (\<Sum>s \<in> envs D (set Sl).
           term_prod (e ++ eO) rest *
           term_prod (s ++ map_of (zip outM (axis_index (e ++ eO) outM))) ow)"
      by (simp add: sum_distrib_left)
    also have "\<dots> = (\<Sum>s \<in> envs D (set Sl). term_prod ((e ++ s) ++ eO) ws)"
    proof (rule sum.cong[OF refl])
      fix s assume s: "s \<in> envs D (set Sl)"
      then have s_dom: "dom s = set Sl" by (simp add: envs_def)
      have s_none: "s l = None" if "l \<notin> set Sl" for l
        using s_dom that by (auto simp: domIff)
      have on_rest: "term_prod (e ++ eO) rest = term_prod ((e ++ s) ++ eO) rest"
      proof (rule term_prod_cong, intro ballI)
        fix t l assume "t \<in> set rest" "l \<in> set (inds t)"
        then have "l \<in> Lr" by (auto simp: Lr_def)
        then have "l \<notin> set Sl" by (simp add: set_Sl)
        then have "s l = None" by (rule s_none)
        then show "(e ++ eO) l = ((e ++ s) ++ eO) l"
          by (simp add: map_add_def split: option.splits)
      qed
      have on_ow: "term_prod (s ++ map_of (zip outM (axis_index (e ++ eO) outM))) ow =
                   term_prod ((e ++ s) ++ eO) ow"
      proof (rule term_prod_cong, intro ballI)
        fix t l assume "t \<in> set ow" "l \<in> set (inds t)"
        then have lo: "l \<in> Lo" by (auto simp: Lo_def)
        show "(s ++ map_of (zip outM (axis_index (e ++ eO) outM))) l = ((e ++ s) ++ eO) l"
        proof (cases "l \<in> set Sl")
          case True
          then have "l \<notin> set outM" by (simp add: set_outM)
          then have "map_of (zip outM (axis_index (e ++ eO) outM)) l = None"
            by (rule map_of_zip_axis_index_None)
          moreover have "eO l = None" using True os_Sl eO_none by blast
          moreover have "s l \<noteq> None" using True s_dom by (auto simp: domIff)
          ultimately show ?thesis by (auto simp: map_add_def split: option.splits)
        next
          case False
          with lo have out: "l \<in> set outM" by (simp add: set_outM)
          then have "\<exists>i<D l. (e ++ eO) l = Some i" by (intro e_val) simp
          then obtain i where i: "(e ++ eO) l = Some i"
            by metis
          have "map_of (zip outM (axis_index (e ++ eO) outM)) l = Some i"
            using out i by (rule map_of_zip_axis_index[where env = "e ++ eO"])
          moreover have "((e ++ s) ++ eO) l = (e ++ eO) l"
            using s_none[OF False] by (simp add: map_add_def split: option.splits)
          ultimately show ?thesis using i by (simp add: map_add_def split: option.splits)
        qed
      qed
      have "term_prod ((e ++ s) ++ eO) rest * term_prod ((e ++ s) ++ eO) ow =
              term_prod ((e ++ s) ++ eO) ws"
        unfolding rest_def ow_def
        using term_prod_partition[of "(e ++ s) ++ eO" "\<lambda>t. x \<in> set (inds t)" ws] by simp
      then show "term_prod (e ++ eO) rest *
              term_prod (s ++ map_of (zip outM (axis_index (e ++ eO) outM))) ow =
            term_prod ((e ++ s) ++ eO) ws"
        by (simp only: on_rest on_ow)
    qed
    finally show "term_prod (e ++ eO) (rest @ [M]) =
        (\<Sum>s \<in> envs D (set Sl). term_prod ((e ++ s) ++ eO) ws)" .
  qed
  also have "\<dots> = (\<Sum>e \<in> envs D (A' \<union> set Sl). term_prod (e ++ eO) ws)"
    by (rule sum_envs_union[OF dist_Sl disj, symmetric])
  also have "\<dots> = at (data (tensor_contract os ws)) oidx"
    using tensor_contract_value[OF wf _ bounds] os_sub
    by (simp only: L_ws split eO_def)
  finally show "at (data (tensor_contract os (contract_values x ws))) oidx =
         at (data (tensor_contract os ws)) oidx"
    by (simp only: cv)
qed

subsection \<open>Full contraction\<close>

lemma entries_by_at:
  assumes "set (multi_indices (map (dim_of (axes_of ts)) out)) \<subseteq> Collect (\<lambda>idx. list_all2 (<) idx (map (dim_of (axes_of ts)) out))"
  shows "entries (data (tensor_contract out ts)) =
           map (at (data (tensor_contract out ts)))
               (multi_indices (shape (data (tensor_contract out ts))))"
proof -
  let ?ds = "map (dim_of (axes_of ts)) out"
  have shape: "shape (data (tensor_contract out ts)) = ?ds"
    by (simp add: tensor_contract_def Let_def)
  have "map (at (data (tensor_contract out ts))) (multi_indices ?ds) =
        entries (data (tensor_contract out ts))"
  proof -
    have "map (at (data (tensor_contract out ts))) (multi_indices ?ds) =
          map (\<lambda>oidx. sum_list (map (\<lambda>sidx. term_prod
                            (map_of (zip out oidx @
                               zip (remdups (filter (\<lambda>l. l \<notin> set out) (concat (map inds ts)))) sidx)) ts)
                         (multi_indices (map (dim_of (axes_of ts))
                            (remdups (filter (\<lambda>l. l \<notin> set out) (concat (map inds ts))))))))
              (multi_indices ?ds)"
      by (intro map_cong refl at_tensor_contract) (simp add: set_multi_indices)
    also have "\<dots> = entries (data (tensor_contract out ts))"
      by (simp add: tensor_contract_def Let_def)
    finally show ?thesis .
  qed
  then show ?thesis by (simp only: shape)
qed

lemma data_by_at:
  fixes ws ws' :: "'a::comm_semiring_1 tensor list"
  assumes wf: "list_all (wf_tensor D) ws" and wf': "list_all (wf_tensor D) ws'"
    and sub: "set os \<subseteq> set (concat (map inds ws))"
    and sub': "set os \<subseteq> set (concat (map inds ws'))"
    and same: "\<And>oidx. list_all2 (<) oidx (map D os) \<Longrightarrow>
               at (data (tensor_contract os ws')) oidx = at (data (tensor_contract os ws)) oidx"
  shows "data (tensor_contract os ws') = data (tensor_contract os ws)"
proof -
  have shape: "shape (data (tensor_contract os ws)) = map D os"
    by (simp add: tensor_contract_def Let_def map_dim_of_axes[OF wf sub])
  have shape': "shape (data (tensor_contract os ws')) = map D os"
    by (simp add: tensor_contract_def Let_def map_dim_of_axes[OF wf' sub'])
  have e: "entries (data (tensor_contract os ws)) =
      map (at (data (tensor_contract os ws))) (multi_indices (map D os))"
    using entries_by_at[of ws os] by (simp add: shape set_multi_indices subset_iff)
  have e': "entries (data (tensor_contract os ws')) =
      map (at (data (tensor_contract os ws'))) (multi_indices (map D os))"
    using entries_by_at[of ws' os] by (simp add: shape' set_multi_indices subset_iff)
  have "entries (data (tensor_contract os ws')) = entries (data (tensor_contract os ws))"
    unfolding e e' by (intro map_cong refl same) (simp add: set_multi_indices)
  with shape shape' show ?thesis by (intro ndarray.equality) simp_all
qed

lemma contract_ind_step_values:
  assumes "valid_net tn h"
  shows "tensor_values (snd (contract_ind tn l h)) tn =
           (if l \<in> dom (ind_map h tn) then contract_values l (tensor_values h tn)
            else tensor_values h tn)"
  using contract_ind_values[OF _ assms, of l]
  by (simp add: contract_ind_missing)

lemma contract_all_value:
  fixes h :: "'a::comm_semiring_1 heap"
  assumes "valid_net tn h"
    and "list_all (wf_tensor D) (tensor_values h tn)"
    and "distinct os"
    and "\<forall>l \<in> set os. length (filter (\<lambda>t. l \<in> set (inds t)) (tensor_values h tn)) = 1"
  shows "list_all (wf_tensor D) (tensor_values (contract_all tn path h) tn) \<and>
         (\<forall>l \<in> set os.
            length (filter (\<lambda>t. l \<in> set (inds t)) (tensor_values (contract_all tn path h) tn)) = 1) \<and>
         (\<forall>oidx. list_all2 (<) oidx (map D os) \<longrightarrow>
            at (data (tensor_contract os (tensor_values (contract_all tn path h) tn))) oidx =
            at (data (tensor_contract os (tensor_values h tn))) oidx)"
  using assms(1,2,4)
proof (induction path arbitrary: h)
  case Nil
  then show ?case by (simp add: contract_all_def)
next
  case (Cons l path)
  let ?h' = "snd (contract_ind tn l h)"
  have valid': "valid_net tn ?h'" by (rule contract_ind_valid[OF Cons.prems(1)])
  have step: "list_all (wf_tensor D) (tensor_values ?h' tn) \<and>
      (\<forall>k \<in> set os. length (filter (\<lambda>t. k \<in> set (inds t)) (tensor_values ?h' tn)) = 1) \<and>
      (\<forall>oidx. list_all2 (<) oidx (map D os) \<longrightarrow>
         at (data (tensor_contract os (tensor_values ?h' tn))) oidx =
         at (data (tensor_contract os (tensor_values h tn))) oidx)"
  proof (cases "l \<in> dom (ind_map h tn)")
    case True
    then have vals: "tensor_values ?h' tn = contract_values l (tensor_values h tn)"
      by (simp add: contract_ind_step_values[OF Cons.prems(1)])
    show ?thesis
      unfolding vals
      using contract_values_step[OF Cons.prems(2) assms(3) Cons.prems(3), where x = l]
      by blast
  next
    case False
    then have "tensor_values ?h' tn = tensor_values h tn"
      by (simp add: contract_ind_step_values[OF Cons.prems(1)])
    with Cons.prems show ?thesis by simp
  qed
  from Cons.IH[OF valid'] step
  have "list_all (wf_tensor D) (tensor_values (contract_all tn path ?h') tn) \<and>
         (\<forall>k \<in> set os.
            length (filter (\<lambda>t. k \<in> set (inds t)) (tensor_values (contract_all tn path ?h') tn)) = 1) \<and>
         (\<forall>oidx. list_all2 (<) oidx (map D os) \<longrightarrow>
            at (data (tensor_contract os (tensor_values (contract_all tn path ?h') tn))) oidx =
            at (data (tensor_contract os (tensor_values ?h' tn))) oidx)"
    by blast
  with step show ?case by (simp add: contract_all_Cons)
qed

lemma open_legs:
  "distinct (output_inds [] vs)"
  "\<forall>l \<in> set (output_inds [] vs). length (filter (\<lambda>t. l \<in> set (inds t)) vs) = 1"
proof -
  show "distinct (output_inds [] vs)" by (simp add: output_inds_def)
  show "\<forall>l \<in> set (output_inds [] vs). length (filter (\<lambda>t. l \<in> set (inds t)) vs) = 1"
  proof
    fix l assume l: "l \<in> set (output_inds [] vs)"
    then have carried: "\<exists>t \<in> set vs. l \<in> set (inds t)"
      and few: "\<not> 2 \<le> length (filter (\<lambda>t. l \<in> set (inds t)) vs)"
      by (auto simp: output_inds_def summed_inds_def)
    from carried have "1 \<le> length (filter (\<lambda>t. l \<in> set (inds t)) vs)"
      by (simp only: carried_iff_count)
    with few show "length (filter (\<lambda>t. l \<in> set (inds t)) vs) = 1" by simp
  qed
qed

lemma carried_by_one:
  "length (filter (\<lambda>t. l \<in> set (inds t)) ts) = 1 \<Longrightarrow> l \<in> set (concat (map inds ts))"
  using carried_iff_count[of ts l] by auto

lemma tn_contract_value:
  fixes h :: "'a::comm_semiring_1 heap"
  assumes wf: "list_all (wf_tensor D) (tensor_values h n)"
  shows "data (tn_contract path n h) =
           data (tensor_contract (output_inds [] (tensor_values h n)) (tensor_values h n))"
    and "inds (tn_contract path n h) = output_inds [] (tensor_values h n)"
proof -
  let ?vs = "tensor_values h n" and ?tn = "fst (tn_copy n h)" and ?h1 = "snd (tn_copy n h)"
  let ?os = "output_inds [] ?vs"
  let ?ws = "tensor_values (contract_all ?tn path ?h1) ?tn"
  have unfold: "tn_contract path n h = tensor_contract ?os ?ws"
    by (simp add: tn_contract_def case_prod_unfold Let_def tensor_values_def contract_all_def)
  have vals: "tensor_values ?h1 ?tn = ?vs" by (rule tn_copy_values)
  have valid: "valid_net ?tn ?h1" by (rule tn_copy_valid)
  note inv = contract_all_value[OF valid, of D ?os path, unfolded vals, OF wf open_legs[of ?vs]]
  have wf': "list_all (wf_tensor D) ?ws" using inv by blast
  have sub: "set ?os \<subseteq> set (concat (map inds ?vs))"
    using open_legs(2)[of ?vs] carried_by_one by blast
  have sub': "set ?os \<subseteq> set (concat (map inds ?ws))"
    using inv carried_by_one by blast
  have same: "at (data (tensor_contract ?os ?ws)) oidx = at (data (tensor_contract ?os ?vs)) oidx"
    if "list_all2 (<) oidx (map D ?os)" for oidx
    using inv that by blast
  show "data (tn_contract path n h) = data (tensor_contract ?os ?vs)"
    unfolding unfold by (rule data_by_at[OF wf wf' sub sub' same])
  show "inds (tn_contract path n h) = ?os"
    by (simp add: unfold tensor_contract_def Let_def)
qed

text \<open>
  A label that a third tensor carries stays on the merged tensor: contracting \<open>a\<close> in
  the network with legs \<open>a x\<close>, \<open>a x\<close>, \<open>x d\<close> leaves the third tensor and a tensor with
  the one leg \<open>x\<close>, and \<open>x\<close> can be contracted once more, not twice.
\<close>

lemma contract_ind_keeps_shared_label:
  "fst (contract_indices three_code [''a''] shared_net) = Inr 1 \<and>
   tensor_values (snd (contract_indices three_code [''a''] shared_net)) 1 =
     [\<lparr>data = \<lparr>shape = [2, 2], entries = [1, 1, 0, 2]\<rparr>, inds = [''x'', ''d''], tags = [''T3'']\<rparr>,
      \<lparr>data = \<lparr>shape = [2], entries = [26, 44]\<rparr>, inds = [''x''], tags = [''T1'', ''T2'']\<rparr>] \<and>
   fst (contract_indices three_code [''a'', ''x''] shared_net) = Inr 1 \<and>
   fst (contract_indices three_code [''a'', ''x'', ''x''] shared_net) =
     Inl (ValueError (not_found ''x''))"
  by code_simp

section \<open>The claims\<close>

text \<open>
  Claim C1. Whatever labels they are given, and whether they return or raise,
  \<open>contract_indices\<close>, \<open>contract_two_indices\<close> and \<open>fuse_and_contract_indices\<close> leave every
  object that was in the store as it was; so the network of the code object has the same
  tensor collection, the same tensors (legs included) and the same \<open>ind_map\<close> afterwards.
\<close>

theorem contraction_leaves_network_untouched:
  assumes "valid_code self h"
  shows "\<forall>h' \<in> {snd (contract_indices self ls h),
                snd (contract_two_indices self ind1 ind2 h),
                snd (fuse_and_contract_indices self ind1 ind2 h)}.
           extends h h' \<and>
           get_tensors self h' = get_tensors self h \<and>
           tensor_values h' (network self) = tensor_values h (network self) \<and>
           ind_map h' (network self) = ind_map h (network self)"
proof -
  have valid: "valid_net (network self) h" using assms by (simp add: valid_code_def)
  have view: "extends h h' \<and>
           get_tensors self h' = get_tensors self h \<and>
           tensor_values h' (network self) = tensor_values h (network self) \<and>
           ind_map h' (network self) = ind_map h (network self)" if "extends h h'" for h'
    using that extends_view[OF that valid] by (simp add: get_tensors_def)
  show ?thesis
    by (simp add: view contract_indices_frame contract_two_indices_frame fuse_frame)
qed

theorem contraction_leaves_network_untouched_witness:
  "valid_code example_code scenario_A \<and>
   extends scenario_A (snd (contract_indices example_code [''b'', ''z''] scenario_A)) \<and>
   tensor_values (snd (contract_indices example_code [''b'', ''z''] scenario_A)) 0 =
     tensor_values scenario_A 0 \<and>
   ind_map (snd (contract_indices example_code [''b'', ''z''] scenario_A)) 0 =
     ind_map scenario_A 0 \<and>
   extends scenario_A (snd (contract_two_indices example_code ''a'' ''b'' scenario_A)) \<and>
   tensor_values (snd (contract_two_indices example_code ''a'' ''b'' scenario_A)) 0 =
     tensor_values scenario_A 0 \<and>
   ind_map (snd (contract_two_indices example_code ''a'' ''b'' scenario_A)) 0 =
     ind_map scenario_A 0 \<and>
   extends scenario_A (snd (fuse_and_contract_indices example_code ''a'' ''b'' scenario_A)) \<and>
   tensor_values (snd (fuse_and_contract_indices example_code ''a'' ''b'' scenario_A)) 0 =
     tensor_values scenario_A 0 \<and>
   ind_map (snd (fuse_and_contract_indices example_code ''a'' ''b'' scenario_A)) 0 =
     ind_map scenario_A 0"
proof -
  have valid: "valid_code example_code scenario_A" by code_simp
  have net: "network example_code = 0" by code_simp
  from contraction_leaves_network_untouched[OF valid, of "[''b'', ''z'']" "''a''" "''b''"] valid
  show ?thesis
    unfolding net by simp
qed

text \<open>
  Claim C2, as amended. A label that is not in the copy's \<open>ind_map\<close> when
  \<open>contract_indices\<close> comes to check it makes the call raise \<open>ValueError\<close> with the message
  "Index '<label>' not found in the tensor network."; \<open>contract_two_indices\<close> raises the
  same for \<open>ind1\<close> when it is absent, and for \<open>ind2\<close> when only \<open>ind2\<close> is.
  \<open>fuse_and_contract_indices\<close> checks \<open>ind1\<close> alone, after the renaming: it raises
  \<open>ValueError\<close> "Index '<ind1>' not found in the tensor network after fusing." when neither
  label is in the \<open>ind_map\<close>, and succeeds as soon as one of them is. A \<open>ValueError\<close> is not
  a \<open>LookupError\<close>.
\<close>

theorem missing_label_raises_ValueError:
  assumes "tn_copy (network self) h = (tn, h1)"
  shows "(\<forall>k < length ls.
            (\<forall>j < k. ls ! j \<in> dom (ind_map (contract_all tn (take j ls) h1) tn)) \<and>
            ls ! k \<notin> dom (ind_map (contract_all tn (take k ls) h1) tn) \<longrightarrow>
            fst (contract_indices self ls h) = Inl (ValueError (not_found (ls ! k)))) \<and>
         (ind1 \<notin> dom (ind_map h (network self)) \<longrightarrow>
            fst (contract_two_indices self ind1 ind2 h) = Inl (ValueError (not_found ind1))) \<and>
         (ind1 \<in> dom (ind_map h (network self)) \<and> ind2 \<notin> dom (ind_map h (network self)) \<longrightarrow>
            fst (contract_two_indices self ind1 ind2 h) = Inl (ValueError (not_found ind2))) \<and>
         (ind1 \<notin> dom (ind_map h (network self)) \<and> ind2 \<notin> dom (ind_map h (network self)) \<longrightarrow>
            fst (fuse_and_contract_indices self ind1 ind2 h) =
              Inl (ValueError (not_found_after_fusing ind1))) \<and>
         (ind1 \<in> dom (ind_map h (network self)) \<or> ind2 \<in> dom (ind_map h (network self)) \<longrightarrow>
            fst (fuse_and_contract_indices self ind1 ind2 h) = Inr tn) \<and>
         (\<forall>l. \<not> is_LookupError (ValueError (not_found l)) \<and>
              \<not> is_LookupError (ValueError (not_found_after_fusing l)))"
proof -
  have tn: "tn = fst (tn_copy (network self) h)" and h1: "h1 = snd (tn_copy (network self) h)"
    using assms by simp_all
  have doms: "dom (ind_map h1 tn) = dom (ind_map h (network self))"
    unfolding tn h1 by (rule tn_copy_ind_map_dom)
  have valid1: "valid_net tn h1" unfolding tn h1 by (rule tn_copy_valid)
  have vals1: "tensor_values h1 tn = tensor_values h (network self)"
    unfolding tn h1 by (rule tn_copy_values)
  have fused: "ind1 \<in> dom (ind_map (rename_all tn ind2 ind1 h1) tn) \<longleftrightarrow>
      ind1 \<in> dom (ind_map h (network self)) \<or> ind2 \<in> dom (ind_map h (network self))"
    by (simp add: in_ind_map rename_all_values[OF valid1] vals1 rename_leg_inds bex_disj_distrib)
  have loop: "\<forall>k < length ls.
            (\<forall>j < k. ls ! j \<in> dom (ind_map (contract_all tn (take j ls) h1) tn)) \<and>
            ls ! k \<notin> dom (ind_map (contract_all tn (take k ls) h1) tn) \<longrightarrow>
            fst (contract_indices self ls h) = Inl (ValueError (not_found (ls ! k)))"
    by (auto simp: contract_indices_def assms contract_loop_fails)
  have two: "(ind1 \<notin> dom (ind_map h (network self)) \<longrightarrow>
            fst (contract_two_indices self ind1 ind2 h) = Inl (ValueError (not_found ind1))) \<and>
         (ind1 \<in> dom (ind_map h (network self)) \<and> ind2 \<notin> dom (ind_map h (network self)) \<longrightarrow>
            fst (contract_two_indices self ind1 ind2 h) = Inl (ValueError (not_found ind2)))"
    by (simp add: contract_two_indices_def assms doms)
  have fuse: "(ind1 \<notin> dom (ind_map h (network self)) \<and> ind2 \<notin> dom (ind_map h (network self)) \<longrightarrow>
            fst (fuse_and_contract_indices self ind1 ind2 h) =
              Inl (ValueError (not_found_after_fusing ind1))) \<and>
         (ind1 \<in> dom (ind_map h (network self)) \<or> ind2 \<in> dom (ind_map h (network self)) \<longrightarrow>
            fst (fuse_and_contract_indices self ind1 ind2 h) = Inr tn)"
    using fused by (auto simp: fuse_unfold[OF assms])
  from loop two fuse show ?thesis by simp
qed

theorem missing_label_raises_ValueError_witness:
  "fst (contract_indices example_code [''a'', ''b''] twin_net) = Inl (ValueError (not_found ''b'')) \<and>
   fst (contract_indices example_code [''z''] scenario_A) =
     Inl (ValueError ''Index 'z' not found in the tensor network.'') \<and>
   fst (contract_two_indices example_code ''z'' ''a'' scenario_A) = Inl (ValueError (not_found ''z'')) \<and>
   fst (contract_two_indices example_code ''a'' ''z'' scenario_A) = Inl (ValueError (not_found ''z'')) \<and>
   fst (fuse_and_contract_indices example_code ''y'' ''z'' scenario_A) =
     Inl (ValueError (not_found_after_fusing ''y'')) \<and>
   fst (fuse_and_contract_indices example_code ''a'' ''z'' scenario_A) = Inr 1"
proof -
  have copyT: "tn_copy (network example_code) twin_net = (1, snd (tn_copy 0 twin_net))"
    and copyA: "tn_copy (network example_code) scenario_A = (1, snd (tn_copy 0 scenario_A))"
    by code_simp+
  have Ta: "''a'' \<in> dom (ind_map (contract_all 1 [] (snd (tn_copy 0 twin_net))) 1)"
    and Tb: "''b'' \<notin> dom (ind_map (contract_all 1 [''a''] (snd (tn_copy 0 twin_net))) 1)"
    and Az1: "''z'' \<notin> dom (ind_map (contract_all 1 [] (snd (tn_copy 0 scenario_A))) 1)"
    and Az: "''z'' \<notin> dom (ind_map scenario_A (network example_code))"
    and Ay: "''y'' \<notin> dom (ind_map scenario_A (network example_code))"
    and Aa: "''a'' \<in> dom (ind_map scenario_A (network example_code))"
    by (rule dom_by_value, code_simp)+
  have msg: "not_found ''z'' = ''Index 'z' not found in the tensor network.''"
    by code_simp
  have later: "fst (contract_indices example_code [''a'', ''b''] twin_net) =
      Inl (ValueError (not_found ''b''))"
    using missing_label_raises_ValueError[OF copyT, of "[''a'', ''b'']"] Ta Tb
    by (simp add: less_Suc_eq)
  have first: "fst (contract_indices example_code [''z''] scenario_A) =
      Inl (ValueError ''Index 'z' not found in the tensor network.'')"
    using missing_label_raises_ValueError[OF copyA, of "[''z'']"] Az1
    by (simp add: msg)
  have two1: "fst (contract_two_indices example_code ''z'' ''a'' scenario_A) =
      Inl (ValueError (not_found ''z''))"
    using missing_label_raises_ValueError[OF copyA, of _ "''z''" "''a''"] Az by blast
  have two2: "fst (contract_two_indices example_code ''a'' ''z'' scenario_A) =
      Inl (ValueError (not_found ''z''))"
    using missing_label_raises_ValueError[OF copyA, of _ "''a''" "''z''"] Aa Az by blast
  have fuse1: "fst (fuse_and_contract_indices example_code ''y'' ''z'' scenario_A) =
      Inl (ValueError (not_found_after_fusing ''y''))"
    using missing_label_raises_ValueError[OF copyA, of _ "''y''" "''z''"] Ay Az by blast
  have fuse2: "fst (fuse_and_contract_indices example_code ''a'' ''z'' scenario_A) = Inr 1"
    using missing_label_raises_ValueError[OF copyA, of _ "''a''" "''z''"] Aa by blast
  from later first two1 two2 fuse1 fuse2 show ?thesis by blast
qed

text \<open>
  Claim C2 as it is stated fails on scenario A, where no tensor has a leg \<open>z\<close>: called with
  the absent label as its second argument, \<open>fuse_and_contract_indices('a', 'z')\<close> returns a
  network; and the failure of \<open>contract_indices(['z'])\<close> is a \<open>ValueError\<close>, which is not
  of the \<open>LookupError\<close> kind.
\<close>

theorem missing_label_counterexample:
  "ind_map scenario_A (network example_code) ''z'' = None \<and>
   fst (fuse_and_contract_indices example_code ''a'' ''z'' scenario_A) = Inr 1 \<and>
   fst (contract_indices example_code [''z''] scenario_A) =
     Inl (ValueError ''Index 'z' not found in the tensor network.'') \<and>
   \<not> is_LookupError (ValueError ''Index 'z' not found in the tensor network.'')"
  by code_simp

text \<open>
  Claim C3. When the network holds a 2x2 tensor with legs \<open>a b\<close> and a 2x2 tensor with legs
  \<open>b c\<close>, \<open>contract_indices(['b'])\<close> returns a network of one tensor, with legs \<open>a c\<close> and
  the entries of the matrix product; the keys of its \<open>ind_map\<close> are \<open>a\<close> and \<open>c\<close>, so \<open>b\<close>
  is gone.
\<close>

theorem scenario_A_is_matrix_product:
  fixes a00 :: "'a::comm_semiring_1"
  assumes "tensor_values h (network self) =
     [\<lparr>data = \<lparr>shape = [2, 2], entries = [a00, a01, a10, a11]\<rparr>, inds = [''a'', ''b''], tags = g1\<rparr>,
      \<lparr>data = \<lparr>shape = [2, 2], entries = [b00, b01, b10, b11]\<rparr>, inds = [''b'', ''c''], tags = g2\<rparr>]"
  shows "fst (contract_indices self [''b''] h) = Inr (length (network_objs h)) \<and>
         tensor_values (snd (contract_indices self [''b''] h)) (length (network_objs h)) =
           [\<lparr>data = \<lparr>shape = [2, 2],
                      entries = [a00 * b00 + a01 * b10, a00 * b01 + a01 * b11,
                                 a10 * b00 + a11 * b10, a10 * b01 + a11 * b11]\<rparr>,
             inds = [''a'', ''c''], tags = remdups (g1 @ g2)\<rparr>] \<and>
         dom (ind_map (snd (contract_indices self [''b''] h)) (length (network_objs h))) = {''a'', ''c''}"
proof -
  let ?n = "network self" and ?tn = "length (network_objs h)"
  let ?h1 = "snd (tn_copy ?n h)"
  let ?T1 = "\<lparr>data = \<lparr>shape = [2, 2], entries = [a00, a01, a10, a11]\<rparr>, inds = [''a'', ''b''], tags = g1\<rparr>"
  let ?T2 = "\<lparr>data = \<lparr>shape = [2, 2], entries = [b00, b01, b10, b11]\<rparr>, inds = [''b'', ''c''], tags = g2\<rparr>"
  let ?R = "\<lparr>data = \<lparr>shape = [2, 2],
                      entries = [a00 * b00 + a01 * b10, a00 * b01 + a01 * b11,
                                 a10 * b00 + a11 * b10, a10 * b01 + a11 * b11]\<rparr>,
             inds = [''a'', ''c''], tags = remdups (g1 @ g2)\<rparr>"
  have copy: "tn_copy ?n h = (?tn, ?h1)" by (simp add: prod_eq_iff tn_copy_fst)
  have valid1: "valid_net ?tn ?h1" using tn_copy_valid[of ?n h] by (simp add: tn_copy_fst)
  have vals1: "tensor_values ?h1 ?tn = [?T1, ?T2]"
    using tn_copy_values[of ?n h] by (simp add: tn_copy_fst assms)
  have present: "''b'' \<in> dom (ind_map ?h1 ?tn)" by (simp add: in_ind_map vals1)
  have legs: "output_inds [] [?T1, ?T2] = [''a'', ''c'']"
    by (simp add: output_inds_def summed_inds_def)
  have product: "tensor_contract [''a'', ''c''] [?T1, ?T2] = ?R"
    by (simp add: tensor_contract_def axes_of_def multi_indices_def dim_of_def at_def offset_def
        term_prod_def axis_index_def upt_rec numeral_2_eq_2 Let_def)
  have run: "contract_indices self [''b''] h = (Inr ?tn, snd (contract_ind ?tn ''b'' ?h1))"
    using present by (simp add: contract_indices_single[OF copy])
  have vals2: "tensor_values (snd (contract_ind ?tn ''b'' ?h1)) ?tn = [?R]"
    by (simp add: contract_ind_values[OF present valid1] vals1 contract_values_def legs product)
  have "dom (ind_map (snd (contract_ind ?tn ''b'' ?h1)) ?tn) = {''a'', ''c''}"
    by (rule set_eqI) (auto simp: in_ind_map vals2)
  with run vals2 show ?thesis by simp
qed

theorem scenario_A_is_matrix_product_witness:
  "tensor_values scenario_A (network example_code) =
     [\<lparr>data = \<lparr>shape = [2, 2], entries = [1, 2, 3, 4]\<rparr>, inds = [''a'', ''b''], tags = [''T1'']\<rparr>,
      \<lparr>data = \<lparr>shape = [2, 2], entries = [5, 6, 7, 8]\<rparr>, inds = [''b'', ''c''], tags = [''T2'']\<rparr>] \<and>
   fst (contract_indices example_code [''b''] scenario_A) = Inr 1 \<and>
   tensor_values (snd (contract_indices example_code [''b''] scenario_A)) 1 =
     [\<lparr>data = \<lparr>shape = [2, 2], entries = [19, 22, 43, 50]\<rparr>,
       inds = [''a'', ''c''], tags = [''T1'', ''T2'']\<rparr>] \<and>
   dom (ind_map (snd (contract_indices example_code [''b''] scenario_A)) 1) = {''a'', ''c''}"
proof -
  have vals: "tensor_values scenario_A (network example_code) =
     [\<lparr>data = \<lparr>shape = [2, 2], entries = [1, 2, 3, 4]\<rparr>, inds = [''a'', ''b''], tags = [''T1'']\<rparr>,
      \<lparr>data = \<lparr>shape = [2, 2], entries = [5, 6, 7, 8]\<rparr>, inds = [''b'', ''c''], tags = [''T2'']\<rparr>]"
    by code_simp
  have len: "length (network_objs scenario_A) = 1" by code_simp
  from scenario_A_is_matrix_product[OF vals] vals show ?thesis
    unfolding len by simp
qed

text \<open>
  Claim C4. \<open>fuse_and_contract_indices(a, b)\<close> and "rename \<open>b\<close> to \<open>a\<close> on every tensor
  of the network, then \<open>contract_indices([a])\<close>" return networks with the same tensors:
  when some tensor carries \<open>a\<close> or \<open>b\<close> both succeed, and the tensors are the contraction
  over \<open>a\<close> of the renamed tensors; otherwise both raise \<open>ValueError\<close>, each with its own
  message. No tensor need be free of a repeated \<open>a\<close> for this.
\<close>

theorem fuse_is_rename_then_contract:
  fixes h :: "'a::comm_semiring_1 heap"
  assumes "valid_code self h"
  shows "tensor_values (snd (fuse_and_contract_indices self a b h)) (length (network_objs h)) =
           tensor_values (snd (contract_indices self [a] (rename_all (network self) b a h)))
             (length (network_objs h)) \<and>
         ((\<exists>t \<in> set (tensor_values h (network self)). a \<in> set (inds t) \<or> b \<in> set (inds t)) \<longrightarrow>
            fst (fuse_and_contract_indices self a b h) = Inr (length (network_objs h)) \<and>
            fst (contract_indices self [a] (rename_all (network self) b a h)) =
              Inr (length (network_objs h)) \<and>
            tensor_values (snd (fuse_and_contract_indices self a b h)) (length (network_objs h)) =
              contract_values a (map (rename_leg b a) (tensor_values h (network self)))) \<and>
         (\<not> (\<exists>t \<in> set (tensor_values h (network self)). a \<in> set (inds t) \<or> b \<in> set (inds t)) \<longrightarrow>
            fst (fuse_and_contract_indices self a b h) = Inl (ValueError (not_found_after_fusing a)) \<and>
            fst (contract_indices self [a] (rename_all (network self) b a h)) =
              Inl (ValueError (not_found a)))"
proof -
  let ?n = "network self" and ?tn = "length (network_objs h)"
  let ?vs = "map (rename_leg b a) (tensor_values h ?n)"
  let ?shared = "\<exists>t \<in> set (tensor_values h ?n). a \<in> set (inds t) \<or> b \<in> set (inds t)"
  have valid: "valid_net ?n h" using assms by (simp add: valid_code_def)
  \<comment> \<open>the fusing call: copy, then rename on the copy\<close>
  let ?h1 = "snd (tn_copy ?n h)"
  let ?h2 = "rename_all ?tn b a ?h1"
  have copy1: "tn_copy ?n h = (?tn, ?h1)" by (simp add: prod_eq_iff tn_copy_fst)
  have valid1: "valid_net ?tn ?h1" using tn_copy_valid[of ?n h] by (simp add: tn_copy_fst)
  have vals2: "tensor_values ?h2 ?tn = ?vs"
    using tn_copy_values[of ?n h] by (simp add: rename_all_values[OF valid1] tn_copy_fst)
  have valid2: "valid_net ?tn ?h2" by (rule rename_all_valid[OF valid1])
  have dom2: "a \<in> dom (ind_map ?h2 ?tn) \<longleftrightarrow> ?shared"
    by (simp add: in_ind_map vals2 rename_leg_inds)
  \<comment> \<open>the other order: rename on the network itself, then copy\<close>
  let ?hr = "rename_all ?n b a h"
  let ?g1 = "snd (tn_copy ?n ?hr)"
  have copy2: "tn_copy ?n ?hr = (?tn, ?g1)"
    using tn_copy_fst[of ?n ?hr] by (simp add: rename_all_network_objs prod_eq_iff)
  have validg: "valid_net ?tn ?g1"
    using tn_copy_valid[of ?n ?hr] by (simp add: tn_copy_fst rename_all_network_objs)
  have valsg: "tensor_values ?g1 ?tn = ?vs"
    using tn_copy_values[of ?n ?hr]
    by (simp add: rename_all_values[OF valid] tn_copy_fst rename_all_network_objs)
  have domg: "a \<in> dom (ind_map ?g1 ?tn) \<longleftrightarrow> ?shared"
    by (simp add: in_ind_map valsg rename_leg_inds)
  show ?thesis
  proof (cases ?shared)
    case True
    have p2: "a \<in> dom (ind_map ?h2 ?tn)" and pg: "a \<in> dom (ind_map ?g1 ?tn)"
      using True dom2 domg by simp_all
    have F: "fuse_and_contract_indices self a b h = (Inr ?tn, snd (contract_ind ?tn a ?h2))"
      using p2 by (simp add: fuse_unfold[OF copy1])
    have G: "contract_indices self [a] ?hr = (Inr ?tn, snd (contract_ind ?tn a ?g1))"
      using pg by (simp add: contract_indices_single[OF copy2])
    show ?thesis
      using True
      by (simp add: F G contract_ind_values[OF p2 valid2] contract_ind_values[OF pg validg]
          vals2 valsg)
  next
    case False
    have p2: "a \<notin> dom (ind_map ?h2 ?tn)" and pg: "a \<notin> dom (ind_map ?g1 ?tn)"
      using False dom2 domg by simp_all
    have F: "fuse_and_contract_indices self a b h = (Inl (ValueError (not_found_after_fusing a)), ?h2)"
      using p2 by (simp add: fuse_unfold[OF copy1])
    have G: "contract_indices self [a] ?hr = (Inl (ValueError (not_found a)), ?g1)"
      using pg by (simp add: contract_indices_single[OF copy2])
    show ?thesis
      using False by (simp add: F G vals2 valsg)
  qed
qed

theorem fuse_is_rename_then_contract_witness:
  "valid_code example_code scenario_C \<and>
   fst (fuse_and_contract_indices example_code ''a'' ''d'' scenario_C) = Inr 1 \<and>
   fst (contract_indices example_code [''a''] (rename_all 0 ''d'' ''a'' scenario_C)) = Inr 1 \<and>
   tensor_values (snd (fuse_and_contract_indices example_code ''a'' ''d'' scenario_C)) 1 =
     tensor_values (snd (contract_indices example_code [''a''] (rename_all 0 ''d'' ''a'' scenario_C))) 1 \<and>
   tensor_values (snd (fuse_and_contract_indices example_code ''a'' ''d'' scenario_C)) 1 =
     [\<lparr>data = \<lparr>shape = [2, 2], entries = [26, 30, 38, 44]\<rparr>,
       inds = [''b'', ''c''], tags = [''T1'', ''T2'']\<rparr>] \<and>
   fst (fuse_and_contract_indices example_code ''y'' ''z'' scenario_C) =
     Inl (ValueError (not_found_after_fusing ''y'')) \<and>
   fst (contract_indices example_code [''y''] (rename_all 0 ''z'' ''y'' scenario_C)) =
     Inl (ValueError (not_found ''y''))"
proof -
  have valid: "valid_code example_code scenario_C" by code_simp
  have len: "length (network_objs scenario_C) = 1" and net: "network example_code = 0"
    by code_simp+
  have some: "\<exists>t \<in> set (tensor_values scenario_C (network example_code)).
      ''a'' \<in> set (inds t) \<or> ''d'' \<in> set (inds t)"
    by code_simp
  have result: "contract_values ''a'' (map (rename_leg ''d'' ''a'') (tensor_values scenario_C 0)) =
     [\<lparr>data = \<lparr>shape = [2, 2], entries = [26, 30, 38, 44]\<rparr>,
       inds = [''b'', ''c''], tags = [''T1'', ''T2'']\<rparr>]"
    by code_simp
  have none: "\<not> (\<exists>t \<in> set (tensor_values scenario_C (network example_code)).
      ''y'' \<in> set (inds t) \<or> ''z'' \<in> set (inds t))"
    by code_simp
  have fused: "fst (fuse_and_contract_indices example_code ''a'' ''d'' scenario_C) = Inr 1 \<and>
     fst (contract_indices example_code [''a''] (rename_all 0 ''d'' ''a'' scenario_C)) = Inr 1 \<and>
     tensor_values (snd (fuse_and_contract_indices example_code ''a'' ''d'' scenario_C)) 1 =
       tensor_values
         (snd (contract_indices example_code [''a''] (rename_all 0 ''d'' ''a'' scenario_C))) 1 \<and>
     tensor_values (snd (fuse_and_contract_indices example_code ''a'' ''d'' scenario_C)) 1 =
       [\<lparr>data = \<lparr>shape = [2, 2], entries = [26, 30, 38, 44]\<rparr>,
         inds = [''b'', ''c''], tags = [''T1'', ''T2'']\<rparr>]"
    using fuse_is_rename_then_contract[OF valid, of "''a''" "''d''"] some
    unfolding len net by (auto simp: result)
  have unknown: "fst (fuse_and_contract_indices example_code ''y'' ''z'' scenario_C) =
       Inl (ValueError (not_found_after_fusing ''y'')) \<and>
     fst (contract_indices example_code [''y''] (rename_all 0 ''z'' ''y'' scenario_C)) =
       Inl (ValueError (not_found ''y''))"
    using fuse_is_rename_then_contract[OF valid, of "''y''" "''z''"] none
    unfolding len net by blast
  from valid fused unknown show ?thesis by blast
qed

text \<open>
  Claim C5. \<open>contract_two_indices\<close> checks \<open>ind1\<close>, then \<open>ind2\<close>, in the copy's \<open>ind_map\<close>
  and raises before any contraction when one is absent (the copy is as \<open>copy()\<close> left it);
  otherwise it contracts \<open>ind1\<close>, then \<open>ind2\<close>, with no second check: when \<open>ind2\<close> is no
  longer a key after the first contraction, the second one raises the missing-label
  failure of the network, naming \<open>ind2\<close>.
\<close>

theorem contract_two_indices_checks_then_contracts:
  assumes "tn_copy (network self) h = (tn, h1)"
  shows "(ind1 \<notin> dom (ind_map h1 tn) \<longrightarrow>
            contract_two_indices self ind1 ind2 h = (Inl (ValueError (not_found ind1)), h1)) \<and>
         (ind1 \<in> dom (ind_map h1 tn) \<and> ind2 \<notin> dom (ind_map h1 tn) \<longrightarrow>
            contract_two_indices self ind1 ind2 h = (Inl (ValueError (not_found ind2)), h1)) \<and>
         (ind1 \<in> dom (ind_map h1 tn) \<and> ind2 \<in> dom (ind_map h1 tn) \<and>
          ind2 \<in> dom (ind_map (snd (contract_ind tn ind1 h1)) tn) \<longrightarrow>
            contract_two_indices self ind1 ind2 h =
              (Inr tn, snd (contract_ind tn ind2 (snd (contract_ind tn ind1 h1))))) \<and>
         (ind1 \<in> dom (ind_map h1 tn) \<and> ind2 \<in> dom (ind_map h1 tn) \<and>
          ind2 \<notin> dom (ind_map (snd (contract_ind tn ind1 h1)) tn) \<longrightarrow>
            contract_two_indices self ind1 ind2 h =
              (Inl (KeyError ind2), snd (contract_ind tn ind1 h1)))"
proof (intro conjI impI)
  assume "ind1 \<notin> dom (ind_map h1 tn)"
  then show "contract_two_indices self ind1 ind2 h = (Inl (ValueError (not_found ind1)), h1)"
    by (simp add: contract_two_indices_def assms)
next
  assume "ind1 \<in> dom (ind_map h1 tn) \<and> ind2 \<notin> dom (ind_map h1 tn)"
  then show "contract_two_indices self ind1 ind2 h = (Inl (ValueError (not_found ind2)), h1)"
    by (simp add: contract_two_indices_def assms)
next
  assume a: "ind1 \<in> dom (ind_map h1 tn) \<and> ind2 \<in> dom (ind_map h1 tn) \<and>
        ind2 \<in> dom (ind_map (snd (contract_ind tn ind1 h1)) tn)"
  then have "fst (contract_ind tn ind2 (snd (contract_ind tn ind1 h1))) = Inr ()"
    by (simp add: contract_ind_fst)
  with a show "contract_two_indices self ind1 ind2 h =
            (Inr tn, snd (contract_ind tn ind2 (snd (contract_ind tn ind1 h1))))"
    by (cases "contract_ind tn ind2 (snd (contract_ind tn ind1 h1))")
       (simp add: contract_two_indices_present[OF assms])
next
  assume a: "ind1 \<in> dom (ind_map h1 tn) \<and> ind2 \<in> dom (ind_map h1 tn) \<and>
        ind2 \<notin> dom (ind_map (snd (contract_ind tn ind1 h1)) tn)"
  then show "contract_two_indices self ind1 ind2 h =
            (Inl (KeyError ind2), snd (contract_ind tn ind1 h1))"
    by (simp add: contract_two_indices_present[OF assms] contract_ind_missing)
qed

theorem contract_two_indices_checks_then_contracts_witness:
  "contract_two_indices example_code ''a'' ''b'' twin_net =
     (Inl (KeyError ''b''), snd (contract_ind 1 ''a'' (snd (tn_copy 0 twin_net)))) \<and>
   contract_two_indices example_code ''z'' ''y'' scenario_A =
     (Inl (ValueError (not_found ''z'')), snd (tn_copy 0 scenario_A)) \<and>
   contract_two_indices example_code ''a'' ''z'' scenario_A =
     (Inl (ValueError (not_found ''z'')), snd (tn_copy 0 scenario_A)) \<and>
   contract_two_indices example_code ''a'' ''c'' scenario_A =
     (Inr 1, snd (contract_ind 1 ''c'' (snd (contract_ind 1 ''a'' (snd (tn_copy 0 scenario_A))))))"
proof -
  have copyT: "tn_copy (network example_code) twin_net = (1, snd (tn_copy 0 twin_net))"
    and copyA: "tn_copy (network example_code) scenario_A = (1, snd (tn_copy 0 scenario_A))"
    by code_simp+
  have Ta: "''a'' \<in> dom (ind_map (snd (tn_copy 0 twin_net)) 1)"
    and Tb: "''b'' \<in> dom (ind_map (snd (tn_copy 0 twin_net)) 1)"
    and Tb': "''b'' \<notin> dom (ind_map (snd (contract_ind 1 ''a'' (snd (tn_copy 0 twin_net)))) 1)"
    and Az: "''z'' \<notin> dom (ind_map (snd (tn_copy 0 scenario_A)) 1)"
    and Aa: "''a'' \<in> dom (ind_map (snd (tn_copy 0 scenario_A)) 1)"
    and Ac: "''c'' \<in> dom (ind_map (snd (tn_copy 0 scenario_A)) 1)"
    and Ac': "''c'' \<in> dom (ind_map (snd (contract_ind 1 ''a'' (snd (tn_copy 0 scenario_A)))) 1)"
    by (rule dom_by_value, code_simp)+
  have vanished: "contract_two_indices example_code ''a'' ''b'' twin_net =
     (Inl (KeyError ''b''), snd (contract_ind 1 ''a'' (snd (tn_copy 0 twin_net))))"
    using contract_two_indices_checks_then_contracts[OF copyT, of "''a''" "''b''"] Ta Tb Tb'
    by blast
  have first: "contract_two_indices example_code ''z'' ''y'' scenario_A =
     (Inl (ValueError (not_found ''z'')), snd (tn_copy 0 scenario_A))"
    using contract_two_indices_checks_then_contracts[OF copyA, of "''z''" "''y''"] Az
    by blast
  have second: "contract_two_indices example_code ''a'' ''z'' scenario_A =
     (Inl (ValueError (not_found ''z'')), snd (tn_copy 0 scenario_A))"
    using contract_two_indices_checks_then_contracts[OF copyA, of "''a''" "''z''"] Aa Az
    by blast
  have both: "contract_two_indices example_code ''a'' ''c'' scenario_A =
     (Inr 1, snd (contract_ind 1 ''c'' (snd (contract_ind 1 ''a'' (snd (tn_copy 0 scenario_A))))))"
    using contract_two_indices_checks_then_contracts[OF copyA, of "''a''" "''c''"] Aa Ac Ac'
    by blast
  from vanished first second both show ?thesis by blast
qed

text \<open>
  Claim C6. \<open>contract_indices\<close> takes the labels in the order given, checking each one in
  the copy's \<open>ind_map\<close> as it stands after the contractions of the labels before it. If
  every label is a key at its turn the call returns the copy with all of them contracted;
  if the label at position \<open>k\<close> is the first that is not, the call raises \<open>ValueError\<close>
  naming it, and the copy has the contractions of the first \<open>k\<close> labels done.
\<close>

theorem contract_indices_in_order:
  assumes "tn_copy (network self) h = (tn, h1)"
  shows "((\<forall>j < length ls. ls ! j \<in> dom (ind_map (contract_all tn (take j ls) h1) tn)) \<longrightarrow>
            contract_indices self ls h = (Inr tn, contract_all tn ls h1)) \<and>
         (\<forall>k < length ls.
            (\<forall>j < k. ls ! j \<in> dom (ind_map (contract_all tn (take j ls) h1) tn)) \<and>
            ls ! k \<notin> dom (ind_map (contract_all tn (take k ls) h1) tn) \<longrightarrow>
            contract_indices self ls h =
              (Inl (ValueError (not_found (ls ! k))), contract_all tn (take k ls) h1))"
  by (auto simp: contract_indices_def assms contract_loop_ok contract_loop_fails)

theorem contract_indices_in_order_witness:
  "contract_indices example_code [''a'', ''b''] twin_net =
     (Inl (ValueError (not_found ''b'')), contract_all 1 [''a''] (snd (tn_copy 0 twin_net))) \<and>
   contract_indices example_code [''b''] scenario_A =
     (Inr 1, contract_all 1 [''b''] (snd (tn_copy 0 scenario_A)))"
proof -
  have copy: "tn_copy (network example_code) twin_net = (1, snd (tn_copy 0 twin_net))"
    by code_simp
  have a: "''a'' \<in> dom (ind_map (contract_all 1 [] (snd (tn_copy 0 twin_net))) 1)"
    by (rule dom_by_value) code_simp
  have b: "''b'' \<notin> dom (ind_map (contract_all 1 [''a''] (snd (tn_copy 0 twin_net))) 1)"
    by (rule dom_by_value) code_simp
  have fails: "contract_indices example_code [''a'', ''b''] twin_net =
     (Inl (ValueError (not_found ([''a'', ''b''] ! 1))),
      contract_all 1 (take 1 [''a'', ''b'']) (snd (tn_copy 0 twin_net)))"
    using contract_indices_in_order[OF copy, of "[''a'', ''b'']"] a b
    by (simp add: less_Suc_eq)
  have copyA: "tn_copy (network example_code) scenario_A = (1, snd (tn_copy 0 scenario_A))"
    by code_simp
  have c: "''b'' \<in> dom (ind_map (contract_all 1 [] (snd (tn_copy 0 scenario_A))) 1)"
    by (rule dom_by_value) code_simp
  have ok: "contract_indices example_code [''b''] scenario_A =
     (Inr 1, contract_all 1 [''b''] (snd (tn_copy 0 scenario_A)))"
    using contract_indices_in_order[OF copyA, of "[''b'']"] c
    by simp
  from fails ok show ?thesis by simp
qed

text \<open>
  Claim C7. The result of \<open>contract()\<close> does not depend on the order in which the labels
  are contracted: for a network of well-formed tensors, any two orders (so a sequence of
  labels and any permutation of it) give the same array and the same legs, those of the
  whole network evaluated as one expression. The entries are sums of products in a
  commutative semiring.
\<close>

theorem contract_order_independent:
  fixes h :: "'a::comm_semiring_1 heap"
  assumes "list_all (wf_tensor D) (tensor_values h (network self))"
  shows "data (contract self p h) = data (contract self q h) \<and>
         inds (contract self p h) = inds (contract self q h) \<and>
         data (contract self p h) =
           data (tensor_contract (output_inds [] (tensor_values h (network self)))
                   (tensor_values h (network self)))"
  by (simp add: contract_def tn_contract_value[OF assms])

theorem contract_order_independent_witness:
  "list_all (wf_tensor (\<lambda>l. 2)) (tensor_values chain_net (network three_code)) \<and>
   data (contract three_code [''b'', ''c''] chain_net) =
     data (contract three_code [''c'', ''b''] chain_net) \<and>
   inds (contract three_code [''b'', ''c''] chain_net) =
     inds (contract three_code [''c'', ''b''] chain_net) \<and>
   data (contract three_code [''b'', ''c''] chain_net) =
     \<lparr>shape = [2, 2], entries = [19, 63, 43, 143]\<rparr> \<and>
   inds (contract three_code [''b'', ''c''] chain_net) = [''a'', ''d''] \<and>
   list_all (wf_tensor (\<lambda>l. 2)) (tensor_values shared_net (network three_code)) \<and>
   data (contract three_code [''a'', ''x''] shared_net) =
     data (contract three_code [''x'', ''a''] shared_net) \<and>
   data (contract three_code [''a'', ''x''] shared_net) = \<lparr>shape = [2], entries = [26, 114]\<rparr>"
proof -
  have wf_chain: "list_all (wf_tensor (\<lambda>l. 2)) (tensor_values chain_net (network three_code))"
    and wf_shared: "list_all (wf_tensor (\<lambda>l. 2)) (tensor_values shared_net (network three_code))"
    by code_simp+
  have chain_value: "data (contract three_code [''b'', ''c''] chain_net) =
       \<lparr>shape = [2, 2], entries = [19, 63, 43, 143]\<rparr>"
    and chain_legs: "inds (contract three_code [''b'', ''c''] chain_net) = [''a'', ''d'']"
    and shared_value: "data (contract three_code [''a'', ''x''] shared_net) =
       \<lparr>shape = [2], entries = [26, 114]\<rparr>"
    by code_simp+
  note chain = contract_order_independent[OF wf_chain, of "[''b'', ''c'']" "[''c'', ''b'']"]
  note shared = contract_order_independent[OF wf_shared, of "[''a'', ''x'']" "[''x'', ''a'']"]
  from wf_chain wf_shared chain shared chain_value chain_legs shared_value
  show ?thesis by blast
qed

text \<open>
  Claim C8. \<open>add_tensor\<close> does not raise and changes the network of the code object
  itself: \<open>get_tensors\<close> then returns the former collection followed by the new tensor,
  and every label of the new tensor maps to its former owners and the new tensor, while
  every other label maps to what it did. A label already held by one tensor is no
  exception.
\<close>

theorem add_tensor_mutates_owned_network:
  assumes "valid_code self h"
  shows "fst (add_tensor self t h) = Inr () \<and>
         get_tensors self (snd (add_tensor self t h)) = get_tensors self h @ [length (tensor_objs h)] \<and>
         tensor_objs (snd (add_tensor self t h)) ! length (tensor_objs h) = t \<and>
         tensor_values (snd (add_tensor self t h)) (network self) =
           tensor_values h (network self) @ [t] \<and>
         (\<forall>l. ind_map (snd (add_tensor self t h)) (network self) l =
            (if l \<in> set (inds t)
             then Some ((case ind_map h (network self) l of None \<Rightarrow> {} | Some s \<Rightarrow> s)
                        \<union> {length (tensor_objs h)})
             else ind_map h (network self) l))"
proof -
  let ?n = "network self" and ?h' = "snd (add_tensor self t h)"
  from assms have n: "?n < length (network_objs h)"
    and refs: "\<forall>r \<in> set (tn_tensors h ?n). r < length (tensor_objs h)"
    by (simp_all add: valid_code_def valid_net_def)
  have h': "?h' = h\<lparr>tensor_objs := tensor_objs h @ [t],
                     network_objs := (network_objs h)[?n := tn_tensors h ?n @ [length (tensor_objs h)]]\<rparr>"
    by (simp add: add_tensor_def tn_add_tensor_def)
  have nets: "tn_tensors ?h' ?n = tn_tensors h ?n @ [length (tensor_objs h)]"
    using n by (simp add: h' tn_tensors_def)
  have old: "tensor_objs ?h' ! r = tensor_objs h ! r" if "r \<in> set (tn_tensors h ?n)" for r
    using that refs by (simp add: h' nth_append)
  have new: "tensor_objs ?h' ! length (tensor_objs h) = t" by (simp add: h')
  have vals: "tensor_values ?h' ?n = tensor_values h ?n @ [t]"
    by (simp add: tensor_values_def nets old new)
  have own: "owners ?h' ?n l =
      owners h ?n l @ (if l \<in> set (inds t) then [length (tensor_objs h)] else [])" for l
  proof -
    have "filter (\<lambda>r. l \<in> set (inds (tensor_objs ?h' ! r))) (tn_tensors h ?n) = owners h ?n l"
      unfolding owners_def by (rule filter_cong) (simp_all add: old)
    then show ?thesis by (simp add: owners_def[of ?h'] nets new)
  qed
  have "ind_map ?h' ?n l =
            (if l \<in> set (inds t)
             then Some ((case ind_map h ?n l of None \<Rightarrow> {} | Some s \<Rightarrow> s) \<union> {length (tensor_objs h)})
             else ind_map h ?n l)" for l
    by (simp add: ind_map_def own)
  with nets new vals show ?thesis
    by (simp add: get_tensors_def add_tensor_def)
qed

theorem add_tensor_mutates_owned_network_witness:
  "valid_code lone_code lone_net \<and>
   fst (add_tensor lone_code
          \<lparr>data = \<lparr>shape = [2, 2], entries = [5, 6, 7, 8]\<rparr>, inds = [''b'', ''c''], tags = [''T2'']\<rparr>
          lone_net) = Inr () \<and>
   get_tensors lone_code
     (snd (add_tensor lone_code
          \<lparr>data = \<lparr>shape = [2, 2], entries = [5, 6, 7, 8]\<rparr>, inds = [''b'', ''c''], tags = [''T2'']\<rparr>
          lone_net)) = [0, 1] \<and>
   ind_map lone_net 0 ''b'' = Some {0} \<and>
   ind_map
     (snd (add_tensor lone_code
          \<lparr>data = \<lparr>shape = [2, 2], entries = [5, 6, 7, 8]\<rparr>, inds = [''b'', ''c''], tags = [''T2'']\<rparr>
          lone_net)) 0 ''b'' = Some {0, 1}"
proof -
  let ?t = "\<lparr>data = \<lparr>shape = [2, 2], entries = [5, 6, 7, 8::int]\<rparr>, inds = [''b'', ''c''], tags = [''T2'']\<rparr>"
  have valid: "valid_code lone_code lone_net" by code_simp
  have before: "get_tensors lone_code lone_net = [0]" "length (tensor_objs lone_net) = 1"
    "network lone_code = 0" "ind_map lone_net 0 ''b'' = Some {0}"
    by code_simp+
  note main = add_tensor_mutates_owned_network[OF valid, of ?t]
  have ok: "fst (add_tensor lone_code ?t lone_net) = Inr ()"
    and coll: "get_tensors lone_code (snd (add_tensor lone_code ?t lone_net)) = [0, 1]"
    using main by (simp_all add: before)
  from main have "ind_map (snd (add_tensor lone_code ?t lone_net)) (network lone_code) ''b'' =
      (if ''b'' \<in> set (inds ?t)
       then Some ((case ind_map lone_net (network lone_code) ''b'' of None \<Rightarrow> {} | Some s \<Rightarrow> s)
                  \<union> {length (tensor_objs lone_net)})
       else ind_map lone_net (network lone_code) ''b'')"
    by blast
  then have owners_b: "ind_map (snd (add_tensor lone_code ?t lone_net)) 0 ''b'' = Some {0, 1}"
    by (simp add: before insert_commute)
  from valid ok coll before(4) owners_b show ?thesis by blast
qed

text \<open>
  Claim C9. When at least two tensors of the network carry \<open>x\<close>,
  \<open>contract_two_indices(x, x)\<close> passes both checks, contracts \<open>x\<close> once on the copy, which
  removes \<open>x\<close> from the copy's \<open>ind_map\<close>, and then fails on the second contraction with
  the missing-label failure naming \<open>x\<close>.
\<close>

theorem contract_two_indices_same_label:
  assumes "tn_copy (network self) h = (tn, h1)"
    and "2 \<le> length (filter (\<lambda>t. x \<in> set (inds t)) (tensor_values h (network self)))"
  shows "x \<in> dom (ind_map h1 tn) \<and>
         x \<notin> dom (ind_map (snd (contract_ind tn x h1)) tn) \<and>
         contract_two_indices self x x h = (Inl (KeyError x), snd (contract_ind tn x h1))"
proof -
  have tn: "tn = fst (tn_copy (network self) h)" and h1: "h1 = snd (tn_copy (network self) h)"
    using assms(1) by simp_all
  have vals: "tensor_values h1 tn = tensor_values h (network self)"
    unfolding tn h1 by (rule tn_copy_values)
  have valid: "valid_net tn h1" unfolding tn h1 by (rule tn_copy_valid)
  from assms(2) have "filter (\<lambda>t. x \<in> set (inds t)) (tensor_values h (network self)) \<noteq> []"
    by auto
  then have present: "x \<in> dom (ind_map h1 tn)"
    by (simp add: in_ind_map vals filter_empty_conv)
  have gone: "x \<notin> dom (ind_map (snd (contract_ind tn x h1)) tn)"
    using contract_values_removes[OF assms(2)]
    by (simp add: in_ind_map contract_ind_values[OF present valid] vals)
  have "contract_two_indices self x x h = (Inl (KeyError x), snd (contract_ind tn x h1))"
    by (simp add: contract_two_indices_present[OF assms(1) present present]
        contract_ind_missing[OF gone])
  with present gone show ?thesis by simp
qed

theorem contract_two_indices_same_label_witness:
  "2 \<le> length (filter (\<lambda>t. ''b'' \<in> set (inds t)) (tensor_values scenario_A (network example_code))) \<and>
   ''b'' \<in> dom (ind_map (snd (tn_copy 0 scenario_A)) 1) \<and>
   ''b'' \<notin> dom (ind_map (snd (contract_ind 1 ''b'' (snd (tn_copy 0 scenario_A)))) 1) \<and>
   contract_two_indices example_code ''b'' ''b'' scenario_A =
     (Inl (KeyError ''b''), snd (contract_ind 1 ''b'' (snd (tn_copy 0 scenario_A))))"
proof -
  have copyA: "tn_copy (network example_code) scenario_A = (1, snd (tn_copy 0 scenario_A))"
    by code_simp
  have shared: "2 \<le> length (filter (\<lambda>t. ''b'' \<in> set (inds t))
                               (tensor_values scenario_A (network example_code)))"
    by code_simp
  show ?thesis
    by (rule conjI[OF shared contract_two_indices_same_label[OF copyA shared]])
qed

text \<open>
  Claim C10. When no tensor carries \<open>ind2\<close> and \<open>ind1\<close> is in the \<open>ind_map\<close>, the renaming
  pass of \<open>fuse_and_contract_indices(ind1, ind2)\<close> changes nothing, the call succeeds, and
  its outcome (result and store) is that of \<open>contract_indices([ind1])\<close>.
\<close>

theorem fuse_with_unknown_second_label:
  assumes "tn_copy (network self) h = (tn, h1)"
    and "\<forall>t \<in> set (tensor_values h (network self)). ind2 \<notin> set (inds t)"
    and "ind1 \<in> dom (ind_map h (network self))"
  shows "rename_all tn ind2 ind1 h1 = h1 \<and>
         fst (fuse_and_contract_indices self ind1 ind2 h) = Inr tn \<and>
         fuse_and_contract_indices self ind1 ind2 h = contract_indices self [ind1] h"
proof -
  have tn: "tn = fst (tn_copy (network self) h)" and h1: "h1 = snd (tn_copy (network self) h)"
    using assms(1) by simp_all
  have vals: "tensor_values h1 tn = tensor_values h (network self)"
    unfolding tn h1 by (rule tn_copy_values)
  have noop: "rename_all tn ind2 ind1 h1 = h1"
    by (rule rename_all_noop) (simp add: vals assms(2))
  have present: "ind1 \<in> dom (ind_map h1 tn)"
    using assms(3) by (simp add: in_ind_map vals)
  obtain res h2 where step: "contract_ind tn ind1 h1 = (res, h2)"
    by (cases "contract_ind tn ind1 h1")
  with contract_ind_fst[OF present] have res: "res = Inr ()" by simp
  have fuse: "fuse_and_contract_indices self ind1 ind2 h = (Inr tn, h2)"
    using present by (simp add: fuse_and_contract_indices_def assms(1) noop step res)
  have plain: "contract_indices self [ind1] h = (Inr tn, h2)"
    using present by (simp add: contract_indices_def assms(1) step res)
  from noop fuse plain show ?thesis by simp
qed

theorem fuse_with_unknown_second_label_witness:
  "list_all (\<lambda>t. ''zz'' \<notin> set (inds t)) (tensor_values scenario_A (network example_code)) \<and>
   ''a'' \<in> dom (ind_map scenario_A (network example_code)) \<and>
   rename_all 1 ''zz'' ''a'' (snd (tn_copy 0 scenario_A)) = snd (tn_copy 0 scenario_A) \<and>
   fst (fuse_and_contract_indices example_code ''a'' ''zz'' scenario_A) = Inr 1 \<and>
   fuse_and_contract_indices example_code ''a'' ''zz'' scenario_A =
     contract_indices example_code [''a''] scenario_A"
proof -
  have copyA: "tn_copy (network example_code) scenario_A = (1, snd (tn_copy 0 scenario_A))"
    by code_simp
  have unknown: "\<forall>t \<in> set (tensor_values scenario_A (network example_code)). ''zz'' \<notin> set (inds t)"
    by code_simp
  have known: "''a'' \<in> dom (ind_map scenario_A (network example_code))"
    by (rule dom_by_value) code_simp
  have listed: "list_all (\<lambda>t. ''zz'' \<notin> set (inds t))
                         (tensor_values scenario_A (network example_code))"
    using unknown by (simp only: list_all_iff)
  show ?thesis
    by (intro conjI listed known)
       (use fuse_with_unknown_second_label[OF copyA unknown known] in blast)+
qed

end
